theory Spec2Isabelle
  imports Complex_Main "HOL-Library.Sublist"
begin

section \<open>Decoded JSON values and the strings held by the broker\<close>

text \<open>
  The gateway in \<^verbatim>\<open>src/api/main.py\<close> never builds JSON text itself: it hands every
  string it reads from Redis to \<^verbatim>\<open>json.loads\<close> and every value it sends to
  \<^verbatim>\<open>json.dumps\<close>. A decoded value is a \<open>json\<close>; an object keeps its members in
  insertion order, as a Python dict does (a decoded object has distinct keys).
  A float is kept as a rational, which is enough for the only test the gateway makes on
  it (truthiness); the non-finite floats are left out.
\<close>

datatype json =
    JNull
  | JBool bool
  | JInt int
  | JFloat rat
  | JStr string
  | JArr "json list"
  | JObj "(string \<times> json) list"

text \<open>
  A string stored under a broker key is given by what \<^verbatim>\<open>json.loads\<close> does on it:
  \<open>Json_text j\<close> is a well-formed text that decodes to \<open>j\<close>; \<open>Bad_text s m\<close> is the text \<open>s\<close>,
  on which \<^verbatim>\<open>json.loads\<close> raises \<^verbatim>\<open>JSONDecodeError\<close> with message \<open>m\<close>.
\<close>

datatype broker_string = Json_text json | Bad_text string string

datatype exc =
  JSONDecodeError string | AttributeError string | KeyError string | TypeError string

definition json_loads :: "broker_string \<Rightarrow> exc + json" where
  "json_loads s = (case s of Json_text j \<Rightarrow> Inr j | Bad_text t m \<Rightarrow> Inl (JSONDecodeError m))"

text \<open>\<^verbatim>\<open>if result_data:\<close> on a Python string: only the empty string is false, and no
  well-formed JSON text is empty.\<close>

definition nonempty :: "broker_string \<Rightarrow> bool" where
  "nonempty s = (case s of Json_text j \<Rightarrow> True | Bad_text t m \<Rightarrow> t \<noteq> [])"

text \<open>Python's truth value of a decoded JSON value.\<close>

definition py_truthy :: "json \<Rightarrow> bool" where
  "py_truthy j = (case j of
      JNull \<Rightarrow> False
    | JBool b \<Rightarrow> b
    | JInt i \<Rightarrow> i \<noteq> 0
    | JFloat r \<Rightarrow> r \<noteq> 0
    | JStr s \<Rightarrow> s \<noteq> []
    | JArr xs \<Rightarrow> xs \<noteq> []
    | JObj kvs \<Rightarrow> kvs \<noteq> [])"

definition type_name :: "json \<Rightarrow> string" where
  "type_name j = (case j of
      JNull \<Rightarrow> ''NoneType''
    | JBool b \<Rightarrow> ''bool''
    | JInt i \<Rightarrow> ''int''
    | JFloat r \<Rightarrow> ''float''
    | JStr s \<Rightarrow> ''str''
    | JArr xs \<Rightarrow> ''list''
    | JObj kvs \<Rightarrow> ''dict'')"

text \<open>\<^verbatim>\<open>x.get(key, default)\<close>: a lookup on a dict, \<^verbatim>\<open>AttributeError\<close> on anything else.\<close>

definition dict_get :: "json \<Rightarrow> string \<Rightarrow> json \<Rightarrow> exc + json" where
  "dict_get x key dflt = (case x of
      JObj kvs \<Rightarrow> Inr (case map_of kvs key of None \<Rightarrow> dflt | Some v \<Rightarrow> v)
    | _ \<Rightarrow> Inl (AttributeError
          ([CHR 0x27] @ type_name x @ [CHR 0x27] @ '' object has no attribute ''
            @ [CHR 0x27] @ ''get'' @ [CHR 0x27])))"

text \<open>\<^verbatim>\<open>x[key]\<close> with a string key: \<^verbatim>\<open>KeyError\<close> on a dict without the key,
  \<^verbatim>\<open>TypeError\<close> on anything else. The gateway applies it only to a value on which
  \<^verbatim>\<open>get\<close> has succeeded, so only the dict case is ever reached.\<close>

definition dict_index :: "json \<Rightarrow> string \<Rightarrow> exc + json" where
  "dict_index x key = (case x of
      JObj kvs \<Rightarrow>
        (case map_of kvs key of
           None \<Rightarrow> Inl (KeyError ([CHR 0x27] @ key @ [CHR 0x27]))
         | Some v \<Rightarrow> Inr v)
    | JArr xs \<Rightarrow> Inl (TypeError ''list indices must be integers or slices, not str'')
    | JStr s \<Rightarrow> Inl (TypeError (''string indices must be integers, not ''
                                  @ [CHR 0x27] @ ''str'' @ [CHR 0x27]))
    | _ \<Rightarrow> Inl (TypeError ([CHR 0x27] @ type_name x @ [CHR 0x27]
                             @ '' object is not subscriptable'')))"

text \<open>\<^verbatim>\<open>str(e)\<close> for the exceptions above.\<close>

definition str_exc :: "exc \<Rightarrow> string" where
  "str_exc e = (case e of
      JSONDecodeError m \<Rightarrow> m | AttributeError m \<Rightarrow> m | KeyError m \<Rightarrow> m | TypeError m \<Rightarrow> m)"

section \<open>The broker, the worker and the clock\<close>

text \<open>
  What the worker side does to a job's keys (spec, section 6): it appends a chunk to
  \<^verbatim>\<open>stream:<id>\<close> or writes \<^verbatim>\<open>result:<id>\<close>.
\<close>

datatype worker_op = Append_chunk string broker_string | Write_result string broker_string

definition result_key :: "string \<Rightarrow> string" where
  "result_key task_id = ''result:'' @ task_id"

definition stream_key :: "string \<Rightarrow> string" where
  "stream_key task_id = ''stream:'' @ task_id"

text \<open>
  The world the gateway runs in. Time is counted in milliseconds. \<open>worker w t\<close> is what the
  worker side does at instant \<open>t\<close>; \<open>latency w t\<close> is how much longer than asked an
  \<^verbatim>\<open>await\<close> started at \<open>t\<close> takes (a broker round trip, the overshoot of a sleep, the
  consumer of the generator). \<open>str_store\<close> and \<open>list_store\<close> are the string keys and the
  list keys of Redis (a list key that is absent is the empty list). \<open>deleted\<close> logs the
  keys given to \<^verbatim>\<open>redis_client.delete\<close>, in order.
\<close>

record world =
  now :: nat
  latency :: "nat \<Rightarrow> nat"
  worker :: "nat \<Rightarrow> worker_op list"
  str_store :: "string \<Rightarrow> broker_string option"
  list_store :: "string \<Rightarrow> broker_string list"
  deleted :: "string list"

fun worker_step :: "worker_op \<Rightarrow> world \<Rightarrow> world" where
  "worker_step (Append_chunk task_id p) w =
     w\<lparr>list_store := (list_store w)(stream_key task_id := list_store w (stream_key task_id) @ [p])\<rparr>"
| "worker_step (Write_result task_id p) w =
     w\<lparr>str_store := (str_store w)(result_key task_id := Some p)\<rparr>"

text \<open>The worker's operations at the instants \<open>a+1, ..., b\<close>, in order.\<close>

definition ops_between :: "(nat \<Rightarrow> worker_op list) \<Rightarrow> nat \<Rightarrow> nat \<Rightarrow> worker_op list" where
  "ops_between f a b = concat (map f [Suc a ..< Suc b])"

text \<open>Letting \<open>d\<close> milliseconds pass: the worker does what it does in that time.\<close>

definition advance :: "nat \<Rightarrow> world \<Rightarrow> world" where
  "advance d w = fold worker_step (ops_between (worker w) (now w) (now w + d)) (w\<lparr>now := now w + d\<rparr>)"

text \<open>An \<^verbatim>\<open>await\<close> that asks for \<open>d\<close> milliseconds takes \<open>d\<close> plus the latency.\<close>

definition await :: "nat \<Rightarrow> world \<Rightarrow> world" where
  "await d w = advance (d + latency w (now w)) w"

definition redis_llen :: "string \<Rightarrow> world \<Rightarrow> nat \<times> world" where
  "redis_llen key w = (let w' = await 0 w in (length (list_store w' key), w'))"

text \<open>\<^verbatim>\<open>LRANGE key start stop\<close> with both indices non-negative, \<open>stop\<close> inclusive.\<close>

definition redis_lrange :: "string \<Rightarrow> nat \<Rightarrow> nat \<Rightarrow> world \<Rightarrow> broker_string list \<times> world" where
  "redis_lrange key start stop w =
     (let w' = await 0 w in (take (Suc stop - start) (drop start (list_store w' key)), w'))"

definition redis_get :: "string \<Rightarrow> world \<Rightarrow> broker_string option \<times> world" where
  "redis_get key w = (let w' = await 0 w in (str_store w' key, w'))"

definition redis_delete :: "string \<Rightarrow> world \<Rightarrow> world" where
  "redis_delete key w =
     (let w' = await 0 w in
      w'\<lparr>str_store := (str_store w')(key := None),
         list_store := (list_store w')(key := []),
         deleted := deleted w' @ [key]\<rparr>)"

definition asyncio_sleep :: "nat \<Rightarrow> world \<Rightarrow> world" where
  "asyncio_sleep d w = await d w"

text \<open>A \<^verbatim>\<open>yield\<close> hands a frame to the consumer and resumes when it asks for the next.\<close>

definition yield :: "world \<Rightarrow> world" where
  "yield w = await 0 w"

subsection \<open>The clock only moves forward\<close>

lemma worker_step_fields [simp]:
  "now (worker_step e w) = now w"
  "latency (worker_step e w) = latency w"
  "worker (worker_step e w) = worker w"
  "deleted (worker_step e w) = deleted w"
  by (cases e; simp)+

lemma fold_worker_step_fields [simp]:
  "now (fold worker_step ops w) = now w"
  "latency (fold worker_step ops w) = latency w"
  "worker (fold worker_step ops w) = worker w"
  "deleted (fold worker_step ops w) = deleted w"
  by (induction ops arbitrary: w; simp)+

lemma advance_fields [simp]:
  "now (advance d w) = now w + d"
  "latency (advance d w) = latency w"
  "worker (advance d w) = worker w"
  "deleted (advance d w) = deleted w"
  by (simp_all add: advance_def)

lemma await_fields [simp]:
  "now (await d w) = now w + d + latency w (now w)"
  "latency (await d w) = latency w"
  "worker (await d w) = worker w"
  "deleted (await d w) = deleted w"
  by (simp_all add: await_def)

section \<open>The result waiter\<close>

text \<open>
  \<^verbatim>\<open>wait_for_result\<close> (lines 211 to 226). \<open>timeout\<close> is in seconds, as in the source;
  the clock is in milliseconds. An exception of \<^verbatim>\<open>json.loads\<close> leaves the function
  (\<open>Inl\<close>); the timeout is an ordinary return value, the dict \<^verbatim>\<open>{"error": "Request timeout"}\<close>.
\<close>

definition timeout_response :: json where
  "timeout_response = JObj [(''error'', JStr ''Request timeout'')]"

function wait_loop :: "string \<Rightarrow> nat \<Rightarrow> int \<Rightarrow> world \<Rightarrow> (exc + json) \<times> world" where
  "wait_loop task_id start_time timeout w =
     (if int (now w) - int start_time < timeout * 1000 then
        (let (result_data, w1) = redis_get (result_key task_id) w in
         case result_data of
           None \<Rightarrow> wait_loop task_id start_time timeout (asyncio_sleep 100 w1)
         | Some s \<Rightarrow>
             if nonempty s then
               (case json_loads s of
                  Inl e \<Rightarrow> (Inl e, w1)
                | Inr result \<Rightarrow> (Inr result, redis_delete (result_key task_id) w1))
             else wait_loop task_id start_time timeout (asyncio_sleep 100 w1))
      else (Inr timeout_response, w))"
  by pat_completeness auto
termination
  by (relation "measure (\<lambda>(task_id, start_time, timeout, w).
        nat (timeout * 1000 + int start_time - int (now w)))")
     (auto simp: redis_get_def asyncio_sleep_def Let_def)

declare wait_loop.simps [simp del]

definition wait_for_result :: "string \<Rightarrow> int \<Rightarrow> world \<Rightarrow> (exc + json) \<times> world" where
  "wait_for_result task_id timeout w = wait_loop task_id (now w) timeout w"

section \<open>The stream relay\<close>

text \<open>
  \<^verbatim>\<open>stream_completion_response\<close> (lines 228 to 318) is an async generator. Its output
  is the list of frames it yields, each the value given to \<^verbatim>\<open>json.dumps\<close> (the text
  sent is \<^verbatim>\<open>data: <json>\<close> and a blank line), tagged with the \<^verbatim>\<open>yield\<close> statement it
  comes from: line 256 (\<open>Chunk\<close>), 277 (\<open>Worker_error\<close>), 291 (\<open>Final_stop\<close>),
  296 (\<open>Complete\<close>), 310 (\<open>Exception\<close>), 318 (\<open>Timeout\<close>).
  The broker is taken to answer every command (no transport error).
\<close>

datatype origin = Chunk | Worker_error | Final_stop | Complete | Exception | Timeout

type_synonym frame = "origin \<times> json"

text \<open>The \<^verbatim>\<open>for chunk_data in new_chunks\<close> loop (lines 251 to 261): a chunk that does not
  decode is logged and skipped; a chunk that decodes is yielded, followed by a pause of
  one millisecond.\<close>

fun emit_chunks :: "broker_string list \<Rightarrow> bool \<Rightarrow> world \<Rightarrow> frame list \<times> bool \<times> world" where
  "emit_chunks [] chunks_sent w = ([], chunks_sent, w)"
| "emit_chunks (chunk_data # rest) chunks_sent w =
     (case json_loads chunk_data of
        Inl e \<Rightarrow> emit_chunks rest chunks_sent w
      | Inr chunk \<Rightarrow>
          (let w1 = yield w;
               w2 = asyncio_sleep 1 w1;
               (fs, sent', w') = emit_chunks rest True w2
           in ((Chunk, chunk) # fs, sent', w')))"

text \<open>Lines 240 to 263: read the chunks beyond \<open>last_chunk_count\<close> and emit them.\<close>

definition poll_chunks :: "string \<Rightarrow> bool \<Rightarrow> nat \<Rightarrow> world \<Rightarrow> frame list \<times> bool \<times> nat \<times> world" where
  "poll_chunks task_id chunks_sent last_chunk_count w =
     (let (current_chunk_count, w1) = redis_llen (stream_key task_id) w in
      if current_chunk_count > last_chunk_count then
        (let (new_chunks, w2) =
               redis_lrange (stream_key task_id) last_chunk_count (current_chunk_count - 1) w1
         in if new_chunks \<noteq> [] then
              (let (fs, sent', w3) = emit_chunks new_chunks chunks_sent w2
               in (fs, sent', current_chunk_count, w3))
            else ([], chunks_sent, last_chunk_count, w2))
      else ([], chunks_sent, last_chunk_count, w1))"

text \<open>Lines 273 to 296: the frames yielded for a decoded result, or the exception raised
  before any of them is yielded.\<close>

definition final_chunk :: "json \<Rightarrow> json \<Rightarrow> json" where
  "final_chunk multimodal slot_id =
     JObj [(''content'', JStr []), (''multimodal'', multimodal),
           (''slot_id'', slot_id), (''stop'', JBool True)]"

definition final_frames :: "json \<Rightarrow> bool \<Rightarrow> exc + frame list" where
  "final_frames result chunks_sent =
     (case dict_get result ''error'' JNull of
        Inl e \<Rightarrow> Inl e
      | Inr err \<Rightarrow>
          if py_truthy err then Inr [(Worker_error, JObj [(''error'', err)])]
          else
            (case dict_get result ''data'' (JObj []) of
               Inl e \<Rightarrow> Inl e
             | Inr response_data \<Rightarrow>
                 if chunks_sent then
                   (case dict_get response_data ''stop'' (JBool False) of
                      Inl e \<Rightarrow> Inl e
                    | Inr stop \<Rightarrow>
                        if py_truthy stop then
                          (case dict_get response_data ''multimodal'' (JBool False) of
                             Inl e \<Rightarrow> Inl e
                           | Inr multimodal \<Rightarrow>
                               (case dict_get response_data ''slot_id'' (JInt 0) of
                                  Inl e \<Rightarrow> Inl e
                                | Inr slot_id \<Rightarrow> Inr [(Final_stop, final_chunk multimodal slot_id)]))
                        else Inr [])
                 else Inr [(Complete, response_data)]))"

definition exception_response :: "exc \<Rightarrow> json" where
  "exception_response e = JObj [(''error'', JStr (''Streaming error: '' @ str_exc e))]"

text \<open>
  One pass through the body of the \<^verbatim>\<open>while\<close> loop (lines 238 to 311). \<open>Inl\<close> is the
  state with which the loop goes on after the pause of 50 milliseconds; \<open>Inr\<close> is a
  \<^verbatim>\<open>return\<close>.
\<close>

definition stream_iteration ::
  "string \<Rightarrow> bool \<Rightarrow> nat \<Rightarrow> world \<Rightarrow> frame list \<times> (bool \<times> nat \<times> world + world)" where
  "stream_iteration task_id chunks_sent last_chunk_count w =
     (let (fs, sent', last', w1) = poll_chunks task_id chunks_sent last_chunk_count w;
          (result_data, w2) = redis_get (result_key task_id) w1;
          continue = (fs, Inl (sent', last', asyncio_sleep 50 w2))
      in case result_data of
           None \<Rightarrow> continue
         | Some s \<Rightarrow>
             if nonempty s then
               (case (case json_loads s of Inl e \<Rightarrow> Inl e | Inr result \<Rightarrow> final_frames result sent') of
                  Inl e \<Rightarrow> (fs @ [(Exception, exception_response e)], Inr (yield w2))
                | Inr ffs \<Rightarrow>
                    (fs @ ffs,
                     Inr (redis_delete (stream_key task_id)
                           (redis_delete (result_key task_id)
                             (if ffs = [] then w2 else yield w2)))))
             else continue)"

lemma now_emit_chunks: "emit_chunks cs sent w = (fs, sent', w') \<Longrightarrow> now w \<le> now w'"
proof (induction cs arbitrary: sent w fs sent' w')
  case Nil
  then show ?case by simp
next
  case (Cons c cs)
  show ?case
  proof (cases "json_loads c")
    case (Inl e)
    then show ?thesis using Cons by simp
  next
    case (Inr chunk)
    obtain fs2 s2 w2 where e: "emit_chunks cs True (asyncio_sleep 1 (yield w)) = (fs2, s2, w2)"
      by (metis prod_cases3)
    have "now (asyncio_sleep 1 (yield w)) \<le> now w2" by (rule Cons.IH [OF e])
    moreover have "now w \<le> now (asyncio_sleep 1 (yield w))"
      by (simp add: asyncio_sleep_def yield_def)
    moreover have "w' = w2" using Cons.prems Inr e by simp
    ultimately show ?thesis by simp
  qed
qed

lemma now_poll_chunks:
  assumes "poll_chunks task_id sent seen w = (fs, sent', seen', w')"
  shows "now w \<le> now w'"
  using assms
  by (auto simp: poll_chunks_def redis_llen_def redis_lrange_def Let_def
           split: prod.splits if_splits dest!: now_emit_chunks)

lemma now_stream_iteration:
  assumes "stream_iteration task_id sent seen w = (fs, Inl (sent', seen', w'))"
  shows "now w + 50 \<le> now w'"
proof -
  obtain fs1 s1 l1 w1 where p: "poll_chunks task_id sent seen w = (fs1, s1, l1, w1)"
    by (metis prod_cases4)
  have "now w \<le> now w1" using p by (rule now_poll_chunks)
  moreover have "w' = asyncio_sleep 50 (await 0 w1)"
    using assms p
    by (auto simp: stream_iteration_def redis_get_def Let_def
             split: option.splits if_splits sum.splits)
  ultimately show ?thesis by (simp add: asyncio_sleep_def)
qed

text \<open>
  The \<^verbatim>\<open>while\<close> loop with the timeout frame after it (lines 237 to 318). \<open>timeout\<close> is in
  seconds, as in the source.
\<close>

function stream_loop ::
  "string \<Rightarrow> nat \<Rightarrow> int \<Rightarrow> bool \<Rightarrow> nat \<Rightarrow> world \<Rightarrow> frame list \<times> world" where
  "stream_loop task_id start_time timeout chunks_sent last_chunk_count w =
     (if int (now w) - int start_time < timeout * 1000 then
        (case stream_iteration task_id chunks_sent last_chunk_count w of
           (fs, Inr w') \<Rightarrow> (fs, w')
         | (fs, Inl (sent', last', w')) \<Rightarrow>
             (let (fs', w'') = stream_loop task_id start_time timeout sent' last' w'
              in (fs @ fs', w'')))
      else ([(Timeout, timeout_response)], yield w))"
  by pat_completeness auto
termination
  by (relation "measure (\<lambda>(task_id, start_time, timeout, chunks_sent, last_chunk_count, w).
        nat (timeout * 1000 + int start_time - int (now w)))")
     (auto dest!: now_stream_iteration [OF sym])

declare stream_loop.simps [simp del]

definition stream_completion_response :: "string \<Rightarrow> world \<Rightarrow> frame list \<times> world" where
  "stream_completion_response task_id w = stream_loop task_id (now w) 300 False 0 w"

section \<open>Keys, chunk history and the passing of time\<close>

lemma result_key_inj [simp]: "result_key a = result_key b \<longleftrightarrow> a = b"
  by (simp add: result_key_def)

lemma stream_key_inj [simp]: "stream_key a = stream_key b \<longleftrightarrow> a = b"
  by (simp add: stream_key_def)

lemma result_key_neq_stream_key [simp]:
  "result_key a \<noteq> stream_key b" "stream_key b \<noteq> result_key a"
  by (simp_all add: result_key_def stream_key_def)

text \<open>The chunks a list of worker operations appends to the list of a job, in order.\<close>

fun chunk_of :: "string \<Rightarrow> worker_op \<Rightarrow> broker_string list" where
  "chunk_of task_id (Append_chunk t p) = (if t = task_id then [p] else [])"
| "chunk_of task_id (Write_result t p) = []"

definition pushed :: "string \<Rightarrow> worker_op list \<Rightarrow> broker_string list" where
  "pushed task_id ops = concat (map (chunk_of task_id) ops)"

text \<open>The chunk list of a job as the worker has appended to it by the instant \<open>t\<close>: what
  the list holds in \<open>w\<close>, then what the worker appends after \<open>now w\<close> up to \<open>t\<close>. This is the
  order of the indices of \<^verbatim>\<open>stream:<id>\<close>, whether or not the gateway deletes the key.\<close>

definition history :: "string \<Rightarrow> world \<Rightarrow> nat \<Rightarrow> broker_string list" where
  "history task_id w t =
     list_store w (stream_key task_id) @ pushed task_id (ops_between (worker w) (now w) t)"

text \<open>The values of the strings of a list that \<^verbatim>\<open>json.loads\<close> decodes, in list order.\<close>

definition decoded :: "broker_string list \<Rightarrow> json list" where
  "decoded cs = concat (map (\<lambda>c. case json_loads c of Inl e \<Rightarrow> [] | Inr chunk \<Rightarrow> [chunk]) cs)"

lemma pushed_simps [simp]:
  "pushed task_id [] = []"
  "pushed task_id (e # ops) = chunk_of task_id e @ pushed task_id ops"
  "pushed task_id (ops @ ops') = pushed task_id ops @ pushed task_id ops'"
  by (simp_all add: pushed_def)

lemma decoded_simps [simp]:
  "decoded [] = []"
  "decoded (Json_text j # cs) = j # decoded cs"
  "decoded (Bad_text t m # cs) = decoded cs"
  "decoded (cs @ cs') = decoded cs @ decoded cs'"
  by (simp_all add: decoded_def json_loads_def)

lemma fold_worker_step_list:
  "list_store (fold worker_step ops w) (stream_key task_id)
     = list_store w (stream_key task_id) @ pushed task_id ops"
proof (induction ops arbitrary: w)
  case Nil
  show ?case by simp
next
  case (Cons e ops)
  show ?case by (cases e) (simp_all add: Cons.IH)
qed

lemma fold_worker_step_str:
  assumes "\<And>p. Write_result task_id p \<in> set ops \<Longrightarrow> p = r"
  shows "str_store (fold worker_step ops w) (result_key task_id)
           = (if Write_result task_id r \<in> set ops then Some r
              else str_store w (result_key task_id))"
  using assms
proof (induction ops arbitrary: w)
  case Nil
  show ?case by simp
next
  case (Cons e ops)
  have ih: "str_store (fold worker_step ops w') (result_key task_id)
           = (if Write_result task_id r \<in> set ops then Some r
              else str_store w' (result_key task_id))" for w'
    by (rule Cons.IH) (simp add: Cons.prems)
  show ?case
  proof (cases e)
    case (Append_chunk t p)
    then show ?thesis by (simp add: ih)
  next
    case (Write_result t p)
    then show ?thesis using Cons.prems [of p] by (auto simp: ih)
  qed
qed

lemma set_ops_between: "set (ops_between f a b) = (\<Union>t\<in>{a<..b}. set (f t))"
proof -
  have "{Suc a..<Suc b} = {a<..b}" by auto
  then show ?thesis by (simp add: ops_between_def del: upt_Suc)
qed

lemma ops_between_append:
  "a \<le> b \<Longrightarrow> b \<le> c \<Longrightarrow> ops_between f a b @ ops_between f b c = ops_between f a c"
proof -
  assume "a \<le> b" "b \<le> c"
  then have "[Suc a..<Suc c] = [Suc a..<Suc b] @ [Suc b..<Suc c]"
    using upt_add_eq_append [of "Suc a" "Suc b" "c - b"] by simp
  then show ?thesis by (simp add: ops_between_def)
qed

lemma ops_between_same [simp]: "ops_between f a a = []"
  by (simp add: ops_between_def)

lemma fold_worker_step_now_update:
  "fold worker_step ops (w\<lparr>now := n\<rparr>) = (fold worker_step ops w)\<lparr>now := n\<rparr>"
proof (induction ops arbitrary: w)
  case Nil
  show ?case by simp
next
  case (Cons e ops)
  have "worker_step e (w\<lparr>now := n\<rparr>) = (worker_step e w)\<lparr>now := n\<rparr>"
    by (cases e) simp_all
  then show ?case by (simp add: Cons.IH)
qed

lemma advance_0 [simp]: "advance 0 w = w"
  by (simp add: advance_def)

lemma advance_advance: "advance b (advance a w) = advance (a + b) w"
proof -
  have "ops_between (worker w) (now w) (now w + a)
          @ ops_between (worker w) (now w + a) (now w + a + b)
        = ops_between (worker w) (now w) (now w + (a + b))"
    using ops_between_append [of "now w" "now w + a" "now w + a + b" "worker w"]
    by (simp add: add.assoc)
  moreover have "fold worker_step B (fold worker_step A w) = fold worker_step (A @ B) w" for A B
    by simp
  ultimately show ?thesis
    by (simp add: advance_def fold_worker_step_now_update add.assoc del: fold_append)
qed

lemma await_advance: "await d w = advance (d + latency w (now w)) w"
  by (simp add: await_def)

lemma list_store_advance:
  "list_store (advance d w) (stream_key task_id) = history task_id w (now w + d)"
  by (simp add: advance_def history_def fold_worker_step_list)

lemma history_advance:
  assumes "now w + d \<le> T"
  shows "history task_id (advance d w) T = history task_id w T"
  using ops_between_append [of "now w" "now w + d" T "worker w"] assms
  by (simp add: history_def list_store_advance [unfolded history_def] flip: pushed_simps(3))

lemma history_prefix:
  assumes "a \<le> b"
  shows "prefix (history task_id w a) (history task_id w b)"
proof (cases "now w \<le> a")
  case True
  then have "pushed task_id (ops_between (worker w) (now w) b)
      = pushed task_id (ops_between (worker w) (now w) a)
        @ pushed task_id (ops_between (worker w) a b)"
    using ops_between_append [of "now w" a b "worker w"] assms
    by (metis pushed_simps(3))
  then show ?thesis by (simp add: history_def)
next
  case False
  then have "ops_between (worker w) (now w) a = []" by (simp add: ops_between_def)
  then show ?thesis by (simp add: history_def)
qed

lemma history_now [simp]: "history task_id w (now w) = list_store w (stream_key task_id)"
  by (simp add: history_def)

section \<open>What one poll of the relay emits\<close>

text \<open>The chunk frames for a stretch of the chunk list: one per decodable entry, in order.\<close>

definition chunk_frames :: "broker_string list \<Rightarrow> frame list" where
  "chunk_frames cs = map (Pair Chunk) (decoded cs)"

text \<open>Nothing, or a single frame that does not come from the chunk loop.\<close>

definition terminal :: "frame list \<Rightarrow> bool" where
  "terminal t = (case t of [] \<Rightarrow> True | [f] \<Rightarrow> fst f \<noteq> Chunk | _ \<Rightarrow> False)"

lemma chunk_frames_simps [simp]:
  "chunk_frames [] = []"
  "chunk_frames (cs @ cs') = chunk_frames cs @ chunk_frames cs'"
  by (simp_all add: chunk_frames_def)

lemma redis_delete_fields [simp]:
  "now (redis_delete key w) = now w + latency w (now w)"
  "latency (redis_delete key w) = latency w"
  "worker (redis_delete key w) = worker w"
  "deleted (redis_delete key w) = deleted w @ [key]"
  "str_store (redis_delete key w) key = None"
  "list_store (redis_delete key w) key = []"
  by (simp_all add: redis_delete_def Let_def)

lemma yield_advance: "yield w = advance (latency w (now w)) w"
  by (simp add: yield_def await_def)

lemma asyncio_sleep_advance: "asyncio_sleep d w = advance (d + latency w (now w)) w"
  by (simp add: asyncio_sleep_def await_def)

lemma list_store_advance_prefix:
  "prefix (list_store w (stream_key task_id)) (list_store (advance d w) (stream_key task_id))"
  by (simp add: list_store_advance history_def)

lemma take_drop_prefix:
  assumes "prefix A H" and "seen \<le> length A"
  shows "take (length A - seen) (drop seen H) = drop seen A"
proof -
  obtain Z where "H = A @ Z" using assms(1) by (auto simp: prefix_def)
  then show ?thesis using assms(2) by simp
qed

lemma emit_chunks_char:
  assumes "emit_chunks cs sent w = (fs, sent', w')"
  shows "fs = chunk_frames cs \<and> sent' = (sent \<or> fs \<noteq> []) \<and> (\<exists>d. w' = advance d w)"
  using assms
proof (induction cs arbitrary: sent w fs sent' w')
  case Nil
  then show ?case by (auto intro: exI [of _ 0])
next
  case (Cons c cs)
  show ?case
  proof (cases c)
    case (Bad_text t m)
    then have "emit_chunks cs sent w = (fs, sent', w')"
      using Cons.prems by (simp add: json_loads_def)
    from Cons.IH [OF this] show ?thesis using Bad_text by (simp add: chunk_frames_def)
  next
    case (Json_text j)
    define w2 where "w2 = asyncio_sleep 1 (yield w)"
    obtain fs2 s2 w3 where e: "emit_chunks cs True w2 = (fs2, s2, w3)"
      by (metis prod_cases3)
    have r: "fs = (Chunk, j) # fs2" "sent' = s2" "w' = w3"
      using Cons.prems Json_text e by (simp_all add: json_loads_def w2_def)
    from Cons.IH [OF e] obtain d where
      ih: "fs2 = chunk_frames cs" "s2 = (True \<or> fs2 \<noteq> [])" "w3 = advance d w2"
      by auto
    have "w2 = advance (latency w (now w) + (1 + latency (yield w) (now (yield w)))) w"
      by (simp add: w2_def asyncio_sleep_advance yield_advance advance_advance add.assoc)
    then have "\<exists>d. w' = advance d w" using ih(3) r(3) by (auto simp: advance_advance)
    then show ?thesis using r ih Json_text by (simp add: chunk_frames_def)
  qed
qed

lemma poll_chunks_char:
  assumes "poll_chunks task_id sent seen w = (fs, sent', seen', w')"
  shows "(\<exists>d. w' = advance d w) \<and> seen \<le> seen' \<and> sent' = (sent \<or> fs \<noteq> []) \<and>
         (\<forall>H. prefix (list_store w' (stream_key task_id)) H \<longrightarrow>
              fs = chunk_frames (take (seen' - seen) (drop seen H)))"
proof -
  define w1 where "w1 = await 0 w"
  define A where "A = list_store w1 (stream_key task_id)"
  define w2 where "w2 = await 0 w1"
  define new where "new = take (Suc (length A - 1) - seen) (drop seen (list_store w2 (stream_key task_id)))"
  have w1: "w1 = advance (latency w (now w)) w" by (simp add: w1_def await_def)
  have w2: "w2 = advance (latency w1 (now w1)) w1" by (simp add: w2_def await_def)
  show ?thesis
  proof (cases "seen < length A")
    case False
    then have "fs = []" "sent' = sent" "seen' = seen" "w' = w1"
      using assms
      by (simp_all add: poll_chunks_def redis_llen_def Let_def w1_def A_def)
    then show ?thesis using w1 by auto
  next
    case True
    have pA: "prefix A (list_store w2 (stream_key task_id))"
      unfolding A_def w2 by (rule list_store_advance_prefix)
    have new: "new = drop seen A"
      using take_drop_prefix [OF pA, of seen] True by (simp add: new_def)
    have len2: "seen < length (list_store w2 (stream_key task_id))"
      using pA True by (auto dest: prefix_length_le)
    have tk: "take (length A - seen) (drop seen (list_store w2 (stream_key task_id))) = new"
      using True by (simp add: new_def)
    have "poll_chunks task_id sent seen w
            = (let (fs, sent', w3) = emit_chunks new sent w2 in (fs, sent', length A, w3))"
      using True len2 tk
      by (simp add: poll_chunks_def redis_llen_def redis_lrange_def Let_def
            w1_def [symmetric] A_def [symmetric] w2_def [symmetric])
    then have e: "emit_chunks new sent w2 = (fs, sent', w')" and s: "seen' = length A"
      using assms by (simp_all split: prod.splits)
    from emit_chunks_char [OF e] obtain d where
      c: "fs = chunk_frames new" "sent' = (sent \<or> fs \<noteq> [])" "w' = advance d w2"
      by auto
    have "w' = advance (latency w (now w) + (latency w1 (now w1) + d)) w"
      by (simp add: c(3) w2 w1 advance_advance add.assoc)
    moreover have "fs = chunk_frames (take (seen' - seen) (drop seen H))"
      if "prefix (list_store w' (stream_key task_id)) H" for H
    proof -
      have "prefix (list_store w2 (stream_key task_id)) (list_store w' (stream_key task_id))"
        unfolding c(3) by (rule list_store_advance_prefix)
      then have "prefix A H" using pA that by (meson prefix_order.order_trans)
      then show ?thesis using take_drop_prefix [of A H seen] True by (simp add: c(1) new s)
    qed
    ultimately show ?thesis using c(2) s True by auto
  qed
qed

lemma final_frames_terminal: "final_frames result sent = Inr ffs \<Longrightarrow> terminal ffs"
  by (auto simp: final_frames_def terminal_def split: sum.splits if_splits)

lemma stream_iteration_unfold:
  assumes "poll_chunks task_id sent seen w = (fs, sent', seen', w1)"
  shows "stream_iteration task_id sent seen w =
     (case str_store (await 0 w1) (result_key task_id) of
        None \<Rightarrow> (fs, Inl (sent', seen', asyncio_sleep 50 (await 0 w1)))
      | Some s \<Rightarrow>
          if nonempty s then
            (case (case json_loads s of Inl e \<Rightarrow> Inl e | Inr result \<Rightarrow> final_frames result sent') of
               Inl e \<Rightarrow> (fs @ [(Exception, exception_response e)], Inr (yield (await 0 w1)))
             | Inr ffs \<Rightarrow>
                 (fs @ ffs,
                  Inr (redis_delete (stream_key task_id)
                        (redis_delete (result_key task_id)
                          (if ffs = [] then await 0 w1 else yield (await 0 w1))))))
          else (fs, Inl (sent', seen', asyncio_sleep 50 (await 0 w1))))"
  by (simp add: stream_iteration_def assms redis_get_def Let_def)

lemma stream_iteration_cont:
  assumes "stream_iteration task_id sent seen w = (fs, Inl (sent', seen', w'))"
  shows "(\<exists>d. w' = advance d w) \<and> seen \<le> seen' \<and> sent' = (sent \<or> fs \<noteq> []) \<and>
         (\<forall>H. prefix (list_store w' (stream_key task_id)) H \<longrightarrow>
              fs = chunk_frames (take (seen' - seen) (drop seen H)))"
proof -
  obtain fs1 s1 l1 w1 where p: "poll_chunks task_id sent seen w = (fs1, s1, l1, w1)"
    by (metis prod_cases4)
  have r: "fs = fs1" "sent' = s1" "seen' = l1" "w' = asyncio_sleep 50 (await 0 w1)"
    using assms unfolding stream_iteration_unfold [OF p]
    by (auto split: option.splits if_splits sum.splits)
  from poll_chunks_char [OF p] obtain d where
    c: "w1 = advance d w" "seen \<le> l1" "s1 = (sent \<or> fs1 \<noteq> [])"
       "\<And>H. prefix (list_store w1 (stream_key task_id)) H \<Longrightarrow>
            fs1 = chunk_frames (take (l1 - seen) (drop seen H))"
    by blast
  have w': "w' = advance (50 + latency (await 0 w1) (now (await 0 w1))
                    + latency w1 (now w1)) w1"
    by (simp add: r(4) asyncio_sleep_advance await_advance advance_advance add.commute)
  then have "\<exists>d. w' = advance d w" unfolding c(1) advance_advance by blast
  moreover have "fs = chunk_frames (take (seen' - seen) (drop seen H))"
    if "prefix (list_store w' (stream_key task_id)) H" for H
  proof -
    have "prefix (list_store w1 (stream_key task_id)) (list_store w' (stream_key task_id))"
      unfolding w' by (rule list_store_advance_prefix)
    then have "prefix (list_store w1 (stream_key task_id)) H"
      using that by (meson prefix_order.order_trans)
    from c(4) [OF this] show ?thesis by (simp add: r)
  qed
  ultimately show ?thesis using c(2,3) r by auto
qed

lemma stream_iteration_ret:
  assumes "stream_iteration task_id sent seen w = (fs, Inr w')"
  shows "now w \<le> now w' \<and>
         (\<forall>H. prefix (history task_id w (now w')) H \<longrightarrow>
              (\<exists>n t. fs = chunk_frames (take n (drop seen H)) @ t \<and> terminal t))"
proof -
  obtain fs1 s1 l1 w1 where p: "poll_chunks task_id sent seen w = (fs1, s1, l1, w1)"
    by (metis prod_cases4)
  have r: "\<exists>t. fs = fs1 @ t \<and> terminal t \<and> now w1 \<le> now w'"
    using assms unfolding stream_iteration_unfold [OF p]
    by (auto simp: terminal_def yield_def split: option.splits if_splits sum.splits
             dest!: final_frames_terminal)
  then obtain t where t: "fs = fs1 @ t" "terminal t" "now w1 \<le> now w'" by blast
  from poll_chunks_char [OF p] obtain d where
    c: "w1 = advance d w"
       "\<And>H. prefix (list_store w1 (stream_key task_id)) H \<Longrightarrow>
            fs1 = chunk_frames (take (l1 - seen) (drop seen H))"
    by blast
  have "fs = chunk_frames (take (l1 - seen) (drop seen H)) @ t"
    if "prefix (history task_id w (now w')) H" for H
  proof -
    have "list_store w1 (stream_key task_id) = history task_id w (now w1)"
      by (simp add: c(1) list_store_advance)
    then have "prefix (list_store w1 (stream_key task_id)) (history task_id w (now w'))"
      using history_prefix [OF t(3)] by simp
    then have "prefix (list_store w1 (stream_key task_id)) H"
      using that by (meson prefix_order.order_trans)
    from c(2) [OF this] show ?thesis by (simp add: t(1))
  qed
  moreover have "now w \<le> now w'" using t(3) c(1) by simp
  ultimately show ?thesis using t(2) by blast
qed

lemma stream_loop_frames:
  assumes "stream_loop task_id start_time timeout sent seen w = (fs, w')"
  shows "now w \<le> now w' \<and>
         (\<exists>n t. fs = chunk_frames (take n (drop seen (history task_id w (now w')))) @ t
                \<and> terminal t)"
  using assms
proof (induction task_id start_time timeout sent seen w arbitrary: fs w'
        rule: stream_loop.induct)
  case (1 task_id start_time timeout sent seen w)
  show ?case
  proof (cases "int (now w) - int start_time < timeout * 1000")
    case False
    then have "fs = [(Timeout, timeout_response)]" "w' = yield w"
      using "1.prems" by (simp_all add: stream_loop.simps)
    then have "fs = chunk_frames (take 0 (drop seen (history task_id w (now w')))) @ fs"
      "terminal fs" "now w \<le> now w'"
      by (simp_all add: terminal_def yield_def)
    then show ?thesis by blast
  next
    case True
    obtain fs1 r where it: "stream_iteration task_id sent seen w = (fs1, r)"
      by (metis prod.exhaust)
    show ?thesis
    proof (cases r)
      case (Inr wf)
      then have "fs = fs1" "w' = wf"
        using "1.prems" True it by (simp_all add: stream_loop.simps)
      then show ?thesis using stream_iteration_ret [of task_id sent seen w fs w'] it Inr
        by auto
    next
      case (Inl st)
      obtain s1 l1 w1 where st: "st = (s1, l1, w1)" by (metis prod_cases3)
      obtain fs2 w2 where rec: "stream_loop task_id start_time timeout s1 l1 w1 = (fs2, w2)"
        by (metis prod.exhaust)
      have res: "fs = fs1 @ fs2" "w' = w2"
        using "1.prems" True it Inl st rec by (simp_all add: stream_loop.simps)
      have "now w1 \<le> now w2 \<and>
         (\<exists>n t. fs2 = chunk_frames (take n (drop l1 (history task_id w1 (now w2)))) @ t
                \<and> terminal t)"
        using "1.IH" True it Inl st rec by auto
      then obtain n t where ih: "now w1 \<le> now w2"
        "fs2 = chunk_frames (take n (drop l1 (history task_id w1 (now w2)))) @ t" "terminal t"
        by blast
      from stream_iteration_cont [of task_id sent seen w fs1 s1 l1 w1] it Inl st
      obtain d where
        c: "w1 = advance d w" "seen \<le> l1"
           "\<And>H. prefix (list_store w1 (stream_key task_id)) H \<Longrightarrow>
                fs1 = chunk_frames (take (l1 - seen) (drop seen H))"
        by blast
      define H where "H = history task_id w (now w2)"
      have h1: "history task_id w1 (now w2) = H"
        using ih(1) unfolding H_def c(1) by (intro history_advance) simp
      have "list_store w1 (stream_key task_id) = history task_id w (now w1)"
        by (simp add: c(1) list_store_advance)
      then have "prefix (list_store w1 (stream_key task_id)) H"
        unfolding H_def using history_prefix [OF ih(1)] by simp
      from c(3) [OF this] have f1: "fs1 = chunk_frames (take (l1 - seen) (drop seen H))" .
      have "take (l1 - seen + n) (drop seen H)
              = take (l1 - seen) (drop seen H) @ take n (drop (l1 - seen) (drop seen H))"
        by (rule take_add)
      moreover have "drop (l1 - seen) (drop seen H) = drop l1 H"
        using c(2) by simp
      ultimately have "take (l1 - seen) (drop seen H) @ take n (drop l1 H)
              = take (l1 - seen + n) (drop seen H)"
        by simp
      then have "fs = chunk_frames (take (l1 - seen + n) (drop seen H)) @ t"
        unfolding res f1 ih(2) h1 by (simp flip: chunk_frames_simps(2))
      moreover have "now w \<le> now w'" using ih(1) c(1) res(2) by simp
      ultimately show ?thesis using ih(3) res(2) H_def by blast
    qed
  qed
qed

section \<open>A worker that stays silent\<close>

text \<open>After \<open>now\<close> the worker never writes the result key of the job, or never appends to
  its chunk list.\<close>

definition no_result :: "string \<Rightarrow> world \<Rightarrow> bool" where
  "no_result task_id w = (\<forall>t>now w. \<forall>p. Write_result task_id p \<notin> set (worker w t))"

definition no_chunks :: "string \<Rightarrow> world \<Rightarrow> bool" where
  "no_chunks task_id w = (\<forall>t>now w. \<forall>p. Append_chunk task_id p \<notin> set (worker w t))"

lemma str_store_advance_quiet:
  assumes "no_result task_id w"
  shows "str_store (advance d w) (result_key task_id) = str_store w (result_key task_id)"
proof -
  have "Write_result task_id p \<notin> set (ops_between (worker w) (now w) (now w + d))" for p
    using assms by (auto simp: no_result_def set_ops_between)
  then show ?thesis
    using fold_worker_step_str [of task_id "ops_between (worker w) (now w) (now w + d)" undefined]
    by (simp add: advance_def)
qed

lemma no_result_advance: "no_result task_id w \<Longrightarrow> no_result task_id (advance d w)"
  by (simp add: no_result_def)

lemma pushed_empty: "(\<And>p. Append_chunk task_id p \<notin> set ops) \<Longrightarrow> pushed task_id ops = []"
proof (induction ops)
  case Nil
  show ?case by simp
next
  case (Cons e ops)
  then show ?case by (cases e) auto
qed

lemma history_quiet:
  assumes "no_chunks task_id w"
  shows "history task_id w T = list_store w (stream_key task_id)"
proof -
  have "Append_chunk task_id p \<notin> set (ops_between (worker w) (now w) T)" for p
    using assms by (auto simp: no_chunks_def set_ops_between)
  then show ?thesis by (simp add: history_def pushed_empty)
qed

lemma list_store_advance_quiet:
  "no_chunks task_id w \<Longrightarrow>
     list_store (advance d w) (stream_key task_id) = list_store w (stream_key task_id)"
  by (simp add: list_store_advance history_quiet)

lemma no_chunks_advance: "no_chunks task_id w \<Longrightarrow> no_chunks task_id (advance d w)"
  by (simp add: no_chunks_def)

lemma wait_loop_step:
  assumes "int (now w) - int start_time < timeout * 1000"
    and "str_store (await 0 w) (result_key task_id) = None"
  shows "wait_loop task_id start_time timeout w
           = wait_loop task_id start_time timeout (asyncio_sleep 100 (await 0 w))"
  using assms by (subst wait_loop.simps) (simp add: redis_get_def)

lemma wait_loop_found:
  assumes "int (now w) - int start_time < timeout * 1000"
    and "str_store (await 0 w) (result_key task_id) = Some (Json_text r)"
  shows "wait_loop task_id start_time timeout w
           = (Inr r, redis_delete (result_key task_id) (await 0 w))"
  using assms
  by (subst wait_loop.simps) (simp add: redis_get_def nonempty_def json_loads_def)

lemma wait_loop_expired:
  assumes "\<not> int (now w) - int start_time < timeout * 1000"
  shows "wait_loop task_id start_time timeout w = (Inr timeout_response, w)"
  using assms by (subst wait_loop.simps) simp

lemma wait_loop_timeout:
  assumes "str_store w (result_key task_id) = None" and "no_result task_id w"
  shows "fst (wait_loop task_id start_time timeout w) = Inr timeout_response
       \<and> (\<exists>d. snd (wait_loop task_id start_time timeout w) = advance d w)
       \<and> timeout * 1000 \<le> int (now (snd (wait_loop task_id start_time timeout w))) - int start_time
       \<and> ((\<forall>t. latency w t \<le> L)
            \<and> int (now w) - int start_time < timeout * 1000 + 100 + 2 * int L
          \<longrightarrow> int (now (snd (wait_loop task_id start_time timeout w))) - int start_time
                < timeout * 1000 + 100 + 2 * int L)"
  using assms
proof (induction task_id start_time timeout w rule: wait_loop.induct)
  case (1 task_id start_time timeout w)
  show ?case
  proof (cases "int (now w) - int start_time < timeout * 1000")
    case False
    show ?thesis unfolding wait_loop_expired [OF False] using False
      by (auto intro: exI [of _ 0])
  next
    case True
    define w1 where "w1 = await 0 w"
    define w2 where "w2 = asyncio_sleep 100 w1"
    have w1: "w1 = advance (latency w (now w)) w" by (simp add: w1_def await_def)
    have w2: "w2 = advance (100 + latency w1 (now w1)) w1"
      by (simp add: w2_def asyncio_sleep_advance)
    have n1: "str_store w1 (result_key task_id) = None"
      unfolding w1 using "1.prems" by (simp add: str_store_advance_quiet)
    have q2: "no_result task_id w2"
      unfolding w2 w1 using "1.prems"(2) by (intro no_result_advance)
    have n2: "str_store w2 (result_key task_id) = None"
      unfolding w2 w1 using "1.prems" by (simp add: str_store_advance_quiet no_result_advance)
    have step: "wait_loop task_id start_time timeout w = wait_loop task_id start_time timeout w2"
      unfolding w2_def w1_def using True n1 [unfolded w1_def] by (rule wait_loop_step)
    have ih: "fst (wait_loop task_id start_time timeout w2) = Inr timeout_response
       \<and> (\<exists>d. snd (wait_loop task_id start_time timeout w2) = advance d w2)
       \<and> timeout * 1000 \<le> int (now (snd (wait_loop task_id start_time timeout w2))) - int start_time
       \<and> ((\<forall>t. latency w2 t \<le> L)
            \<and> int (now w2) - int start_time < timeout * 1000 + 100 + 2 * int L
          \<longrightarrow> int (now (snd (wait_loop task_id start_time timeout w2))) - int start_time
                < timeout * 1000 + 100 + 2 * int L)"
      using "1.IH"(1) [of "redis_get (result_key task_id) w" None w1] True n1 n2 q2
      by (simp add: redis_get_def w1_def w2_def)
    have adv: "w2 = advance (latency w (now w) + (100 + latency w1 (now w1))) w"
      unfolding w2 w1 by (simp add: advance_advance)
    have bound: "int (now w2) - int start_time < timeout * 1000 + 100 + 2 * int L"
      if "\<forall>t. latency w t \<le> L"
    proof -
      have "latency w (now w) \<le> L" "latency w1 (now w1) \<le> L"
        using that by (simp_all add: w1)
      then show ?thesis using True by (simp add: adv)
    qed
    have "latency w2 = latency w" by (simp add: adv)
    moreover have "\<exists>d. snd (wait_loop task_id start_time timeout w2) = advance d w"
      using ih unfolding adv by (auto simp: advance_advance)
    ultimately show ?thesis unfolding step using ih bound by auto
  qed
qed

section \<open>One pass of the relay loop\<close>

lemma redis_delete_stores:
  "str_store (redis_delete key w) k = (if k = key then None else str_store (await 0 w) k)"
  "list_store (redis_delete key w) k = (if k = key then [] else list_store (await 0 w) k)"
  by (simp_all add: redis_delete_def Let_def)

lemma no_result_await: "no_result task_id w \<Longrightarrow> no_result task_id (await d w)"
  by (simp add: no_result_def)

lemma no_chunks_await: "no_chunks task_id w \<Longrightarrow> no_chunks task_id (await d w)"
  by (simp add: no_chunks_def)

lemma no_result_redis_delete: "no_result task_id w \<Longrightarrow> no_result task_id (redis_delete key w)"
  by (simp add: no_result_def)

lemma str_store_await_quiet:
  "no_result task_id w \<Longrightarrow>
     str_store (await d w) (result_key task_id) = str_store w (result_key task_id)"
  by (simp add: await_def str_store_advance_quiet)

lemma list_store_await_quiet:
  "no_chunks task_id w \<Longrightarrow>
     list_store (await d w) (stream_key task_id) = list_store w (stream_key task_id)"
  by (simp add: await_def list_store_advance_quiet)

lemma poll_chunks_idle:
  assumes "list_store w (stream_key task_id) = []" and "no_chunks task_id w"
  shows "poll_chunks task_id sent seen w = ([], sent, seen, await 0 w)"
  using assms by (simp add: poll_chunks_def redis_llen_def list_store_await_quiet)

lemma stream_iteration_idle:
  assumes "list_store w (stream_key task_id) = []" and "no_chunks task_id w"
    and "str_store w (result_key task_id) = None" and "no_result task_id w"
  shows "stream_iteration task_id sent seen w
           = ([], Inl (sent, seen, asyncio_sleep 50 (await 0 (await 0 w))))"
  unfolding stream_iteration_unfold [OF poll_chunks_idle [OF assms(1,2)]]
  using assms(3,4) by (simp add: str_store_await_quiet no_result_await)

lemma stream_loop_expired:
  assumes "\<not> int (now w) - int start_time < timeout * 1000"
  shows "stream_loop task_id start_time timeout sent seen w
           = ([(Timeout, timeout_response)], yield w)"
  using assms by (subst stream_loop.simps) simp

lemma stream_loop_return:
  assumes "int (now w) - int start_time < timeout * 1000"
    and "stream_iteration task_id sent seen w = (fs, Inr w')"
  shows "stream_loop task_id start_time timeout sent seen w = (fs, w')"
  using assms by (subst stream_loop.simps) simp

lemma stream_loop_continue:
  assumes "int (now w) - int start_time < timeout * 1000"
    and "stream_iteration task_id sent seen w = (fs, Inl (sent', seen', w'))"
  shows "stream_loop task_id start_time timeout sent seen w
           = (fs @ fst (stream_loop task_id start_time timeout sent' seen' w'),
              snd (stream_loop task_id start_time timeout sent' seen' w'))"
  using assms by (subst stream_loop.simps) (simp add: case_prod_beta)

lemma stream_loop_idle:
  assumes "list_store w (stream_key task_id) = []" and "no_chunks task_id w"
    and "str_store w (result_key task_id) = None" and "no_result task_id w"
  shows "fst (stream_loop task_id start_time timeout sent seen w) = [(Timeout, timeout_response)]
       \<and> (\<exists>d. snd (stream_loop task_id start_time timeout sent seen w) = advance d w)
       \<and> timeout * 1000
           \<le> int (now (snd (stream_loop task_id start_time timeout sent seen w))) - int start_time
       \<and> ((\<forall>t. latency w t \<le> L)
            \<and> int (now w) - int start_time < timeout * 1000 + 50 + 3 * int L
          \<longrightarrow> int (now (snd (stream_loop task_id start_time timeout sent seen w))) - int start_time
                < timeout * 1000 + 50 + 4 * int L)"
  using assms
proof (induction task_id start_time timeout sent seen w rule: stream_loop.induct)
  case (1 task_id start_time timeout sent seen w)
  show ?case
  proof (cases "int (now w) - int start_time < timeout * 1000")
    case False
    let ?r = "stream_loop task_id start_time timeout sent seen w"
    have e: "?r = ([(Timeout, timeout_response)], yield w)"
      using False by (rule stream_loop_expired)
    have a: "snd ?r = advance (latency w (now w)) w" by (simp add: e yield_advance)
    have "int (now (snd ?r)) - int start_time < timeout * 1000 + 50 + 4 * int L"
      if "\<forall>t. latency w t \<le> L"
        and "int (now w) - int start_time < timeout * 1000 + 50 + 3 * int L"
    proof -
      have "latency w (now w) \<le> L" using that(1) by blast
      then show ?thesis using that(2) by (simp add: a)
    qed
    moreover have "timeout * 1000 \<le> int (now (snd ?r)) - int start_time"
      using False by (simp add: a)
    moreover have "fst ?r = [(Timeout, timeout_response)]" by (simp add: e)
    ultimately show ?thesis using a by blast
  next
    case True
    define w1 where "w1 = await 0 w"
    define w2 where "w2 = await 0 w1"
    define w3 where "w3 = asyncio_sleep 50 w2"
    have adv: "w3 = advance (latency w (now w) + (latency w1 (now w1)
                       + (50 + latency w2 (now w2)))) w"
      by (simp add: w3_def w2_def w1_def asyncio_sleep_advance await_advance advance_advance
                    add.assoc)
    have it: "stream_iteration task_id sent seen w = ([], Inl (sent, seen, w3))"
      unfolding w3_def w2_def w1_def using "1.prems" by (rule stream_iteration_idle)
    have q: "list_store w3 (stream_key task_id) = []" "no_chunks task_id w3"
      "str_store w3 (result_key task_id) = None" "no_result task_id w3"
      unfolding adv using "1.prems"
      by (simp_all add: list_store_advance_quiet str_store_advance_quiet
            no_chunks_advance no_result_advance)
    let ?r = "stream_loop task_id start_time timeout sent seen w3"
    have ih: "fst ?r = [(Timeout, timeout_response)]
       \<and> (\<exists>d. snd ?r = advance d w3)
       \<and> timeout * 1000 \<le> int (now (snd ?r)) - int start_time
       \<and> ((\<forall>t. latency w3 t \<le> L)
            \<and> int (now w3) - int start_time < timeout * 1000 + 50 + 3 * int L
          \<longrightarrow> int (now (snd ?r)) - int start_time < timeout * 1000 + 50 + 4 * int L)"
      using "1.IH" [OF True it [symmetric] refl refl refl q] .
    have step: "stream_loop task_id start_time timeout sent seen w = (fst ?r, snd ?r)"
      using stream_loop_continue [OF True it] by simp
    have bound: "int (now w3) - int start_time < timeout * 1000 + 50 + 3 * int L"
      if "\<forall>t. latency w t \<le> L"
    proof -
      have "latency w (now w) \<le> L" "latency w1 (now w1) \<le> L" "latency w2 (now w2) \<le> L"
        using that by (simp_all add: w1_def w2_def)
      then show ?thesis using True by (simp add: adv)
    qed
    have "latency w3 = latency w" by (simp add: adv)
    moreover have "\<exists>d. snd ?r = advance d w"
      using ih unfolding adv by (auto simp: advance_advance)
    ultimately show ?thesis unfolding step using ih bound by auto
  qed
qed

text \<open>The parts of one pass through the loop body, named for the statements below:
  the chunk frames the pass emits, the flag \<^verbatim>\<open>chunks_sent\<close> after them, the string
  the \<^verbatim>\<open>GET\<close> on the result key returns, and the world when it has returned.\<close>

definition polled_frames :: "string \<Rightarrow> bool \<Rightarrow> nat \<Rightarrow> world \<Rightarrow> frame list" where
  "polled_frames task_id chunks_sent seen w = fst (poll_chunks task_id chunks_sent seen w)"

definition chunks_sent_after :: "string \<Rightarrow> bool \<Rightarrow> nat \<Rightarrow> world \<Rightarrow> bool" where
  "chunks_sent_after task_id chunks_sent seen w = fst (snd (poll_chunks task_id chunks_sent seen w))"

definition result_read :: "string \<Rightarrow> bool \<Rightarrow> nat \<Rightarrow> world \<Rightarrow> broker_string option" where
  "result_read task_id chunks_sent seen w =
     fst (redis_get (result_key task_id) (snd (snd (snd (poll_chunks task_id chunks_sent seen w)))))"

definition after_get :: "string \<Rightarrow> bool \<Rightarrow> nat \<Rightarrow> world \<Rightarrow> world" where
  "after_get task_id chunks_sent seen w =
     snd (redis_get (result_key task_id) (snd (snd (snd (poll_chunks task_id chunks_sent seen w)))))"

text \<open>A member of a decoded object that is present and true in Python's sense.\<close>

definition flag_set :: "(string \<times> json) list \<Rightarrow> string \<Rightarrow> bool" where
  "flag_set obj key = (case map_of obj key of None \<Rightarrow> False | Some v \<Rightarrow> py_truthy v)"

lemma stream_iteration_parts:
  "stream_iteration task_id sent seen w =
     (case result_read task_id sent seen w of
        None \<Rightarrow> (polled_frames task_id sent seen w,
                 Inl (chunks_sent_after task_id sent seen w,
                      fst (snd (snd (poll_chunks task_id sent seen w))),
                      asyncio_sleep 50 (after_get task_id sent seen w)))
      | Some s \<Rightarrow>
          if nonempty s then
            (case (case json_loads s of Inl e \<Rightarrow> Inl e
                   | Inr result \<Rightarrow> final_frames result (chunks_sent_after task_id sent seen w)) of
               Inl e \<Rightarrow> (polled_frames task_id sent seen w @ [(Exception, exception_response e)],
                         Inr (yield (after_get task_id sent seen w)))
             | Inr ffs \<Rightarrow>
                 (polled_frames task_id sent seen w @ ffs,
                  Inr (redis_delete (stream_key task_id)
                        (redis_delete (result_key task_id)
                          (if ffs = [] then after_get task_id sent seen w
                           else yield (after_get task_id sent seen w))))))
          else (polled_frames task_id sent seen w,
                Inl (chunks_sent_after task_id sent seen w,
                     fst (snd (snd (poll_chunks task_id sent seen w))),
                     asyncio_sleep 50 (after_get task_id sent seen w))))"
proof -
  obtain fs s1 l1 w1 where p: "poll_chunks task_id sent seen w = (fs, s1, l1, w1)"
    by (metis prod_cases4)
  have eqs: "polled_frames task_id sent seen w = fs"
    "chunks_sent_after task_id sent seen w = s1"
    "fst (snd (snd (poll_chunks task_id sent seen w))) = l1"
    "result_read task_id sent seen w = str_store (await 0 w1) (result_key task_id)"
    "after_get task_id sent seen w = await 0 w1"
    by (simp_all add: p polled_frames_def chunks_sent_after_def result_read_def after_get_def
                  redis_get_def Let_def)
  show ?thesis
    unfolding stream_iteration_unfold [OF p] eqs by (rule refl)
qed

lemma deleted_after_get: "deleted (after_get task_id sent seen w) = deleted w"
proof -
  obtain fs s1 l1 w1 where p: "poll_chunks task_id sent seen w = (fs, s1, l1, w1)"
    by (metis prod_cases4)
  from poll_chunks_char [OF p] obtain d where "w1 = advance d w" by blast
  then show ?thesis by (simp add: after_get_def p redis_get_def Let_def)
qed

lemma polled_frames_chunks: "\<exists>cs. polled_frames task_id sent seen w = chunk_frames cs"
proof -
  obtain fs s1 l1 w1 where p: "poll_chunks task_id sent seen w = (fs, s1, l1, w1)"
    by (metis prod_cases4)
  from poll_chunks_char [OF p]
  have "fs = chunk_frames (take (l1 - seen) (drop seen (list_store w1 (stream_key task_id))))"
    by blast
  then show ?thesis unfolding polled_frames_def p by auto
qed

lemma final_frames_complete:
  assumes "\<not> flag_set result ''error''" and "map_of result ''data'' = Some d"
  shows "final_frames (JObj result) False = Inr [(Complete, d)]"
  using assms
  by (auto simp: final_frames_def dict_get_def flag_set_def py_truthy_def split: option.splits)

lemma final_frames_silent:
  assumes "\<not> flag_set result ''error''" and "map_of result ''data'' = Some (JObj data)"
    and "\<not> flag_set data ''stop''"
  shows "final_frames (JObj result) True = Inr []"
  using assms
  by (auto simp: final_frames_def dict_get_def flag_set_def py_truthy_def split: option.splits)

lemma final_frames_stop:
  assumes "\<not> flag_set result ''error''" and "map_of result ''data'' = Some (JObj data)"
    and "flag_set data ''stop''"
  shows "final_frames (JObj result) True =
     Inr [(Final_stop,
           JObj [(''content'', JStr []),
                 (''multimodal'', case map_of data ''multimodal'' of None \<Rightarrow> JBool False | Some v \<Rightarrow> v),
                 (''slot_id'', case map_of data ''slot_id'' of None \<Rightarrow> JInt 0 | Some v \<Rightarrow> v),
                 (''stop'', JBool True)])]"
  using assms
  by (auto simp: final_frames_def final_chunk_def dict_get_def flag_set_def py_truthy_def
           split: option.splits)

section \<open>Properties of the relay and of the waiter\<close>

text \<open>A world in which nothing is stored and nothing happens, with a broker that answers
  at once.\<close>

definition idle_world :: world where
  "idle_world = \<lparr>now = 0, latency = (\<lambda>t. 0), worker = (\<lambda>t. []),
     str_store = (\<lambda>k. None), list_store = (\<lambda>k. []), deleted = []\<rparr>"


text \<open>
  Claim C4. If the result key of the job is absent when \<^verbatim>\<open>wait_for_result\<close> is called
  and the worker never writes it, the call returns the timeout outcome
  \<^verbatim>\<open>{"error": "Request timeout"}\<close>, never before \<open>timeout\<close> seconds have passed since the
  call began; when no await overshoots by more than \<open>L\<close> milliseconds it returns less than
  one poll interval (100 ms) plus \<open>2 L\<close> after the timeout, so within one poll interval
  when the broker answers at once. Nothing is deleted on the way.
\<close>

theorem wait_for_result_timeout:
  assumes "str_store w (result_key task_id) = None" and "no_result task_id w"
  shows "fst (wait_for_result task_id timeout w) = Inr timeout_response
       \<and> timeout * 1000 \<le> int (now (snd (wait_for_result task_id timeout w))) - int (now w)
       \<and> (0 \<le> timeout \<and> (\<forall>t. latency w t \<le> L)
            \<longrightarrow> int (now (snd (wait_for_result task_id timeout w))) - int (now w)
                  < timeout * 1000 + 100 + 2 * int L)
       \<and> deleted (snd (wait_for_result task_id timeout w)) = deleted w
       \<and> str_store (snd (wait_for_result task_id timeout w)) (result_key task_id) = None"
proof -
  let ?r = "wait_loop task_id (now w) timeout w"
  from wait_loop_timeout [OF assms, of "now w" timeout L] obtain d where
    l: "fst ?r = Inr timeout_response" "snd ?r = advance d w"
       "timeout * 1000 \<le> int (now (snd ?r)) - int (now w)"
       "(\<forall>t. latency w t \<le> L) \<and> int (now w) - int (now w) < timeout * 1000 + 100 + 2 * int L
          \<longrightarrow> int (now (snd ?r)) - int (now w) < timeout * 1000 + 100 + 2 * int L"
    by blast
  have "deleted (snd ?r) = deleted w" by (simp add: l(2))
  moreover have "str_store (snd ?r) (result_key task_id) = None"
    using assms by (simp add: l(2) str_store_advance_quiet)
  moreover have "int (now (snd ?r)) - int (now w) < timeout * 1000 + 100 + 2 * int L"
    if "0 \<le> timeout" "\<forall>t. latency w t \<le> L"
    using l(4) that by simp
  ultimately show ?thesis using l(1,3) by (simp add: wait_for_result_def)
qed

theorem wait_for_result_timeout_witness:
  "str_store idle_world (result_key ''timeoutjob'') = None
   \<and> no_result ''timeoutjob'' idle_world
   \<and> fst (wait_for_result ''timeoutjob'' 1 idle_world) = Inr timeout_response
   \<and> 1000 \<le> int (now (snd (wait_for_result ''timeoutjob'' 1 idle_world)))
   \<and> int (now (snd (wait_for_result ''timeoutjob'' 1 idle_world))) < 1100"
proof -
  have h: "str_store idle_world (result_key ''timeoutjob'') = None"
    "no_result ''timeoutjob'' idle_world"
    by (simp_all add: idle_world_def no_result_def)
  have z: "0 \<le> (1::int) \<and> (\<forall>t. latency idle_world t \<le> 0)" "now idle_world = 0"
    by (simp_all add: idle_world_def)
  show ?thesis
    using h z wait_for_result_timeout [OF h, of 1 0] by simp
qed

definition hel :: json where
  "hel = JObj [(''content'', JStr ''Hel''), (''stop'', JBool False)]"

definition lo :: json where
  "lo = JObj [(''content'', JStr ''lo''), (''stop'', JBool False)]"

text \<open>The worlds of the scenarios: the job's chunk list and result key as given, a broker that
  answers at once, and a worker that does nothing more.\<close>

definition settled_world :: "string \<Rightarrow> broker_string list \<Rightarrow> json \<Rightarrow> world" where
  "settled_world task_id chunks result =
     \<lparr>now = 0, latency = (\<lambda>t. 0), worker = (\<lambda>t. []),
      str_store = (\<lambda>k. None)(result_key task_id := Some (Json_text result)),
      list_store = (\<lambda>k. [])(stream_key task_id := chunks),
      deleted = []\<rparr>"

text \<open>
  Claim C10. If the job's result key and chunk list are absent when the relay starts and
  the worker never writes either, \<^verbatim>\<open>stream_completion_response\<close> yields the timeout
  frame \<^verbatim>\<open>{"error": "Request timeout"}\<close> and nothing else, not before 300 seconds have
  passed; when no await overshoots by more than \<open>L\<close> milliseconds the generator has
  finished less than 50 ms plus \<open>4 L\<close> after the timeout. No key is deleted: the world at
  the end is the world at the start with time passed.
\<close>

theorem relay_timeout_leaves_broker:
  assumes "str_store w (result_key task_id) = None"
    and "list_store w (stream_key task_id) = []"
    and "no_result task_id w" and "no_chunks task_id w"
  shows "fst (stream_completion_response task_id w) = [(Timeout, timeout_response)]
       \<and> 300000 \<le> int (now (snd (stream_completion_response task_id w))) - int (now w)
       \<and> ((\<forall>t. latency w t \<le> L)
            \<longrightarrow> int (now (snd (stream_completion_response task_id w))) - int (now w)
                  < 300050 + 4 * int L)
       \<and> (\<exists>d. snd (stream_completion_response task_id w) = advance d w)
       \<and> deleted (snd (stream_completion_response task_id w)) = deleted w
       \<and> str_store (snd (stream_completion_response task_id w)) (result_key task_id) = None
       \<and> list_store (snd (stream_completion_response task_id w)) (stream_key task_id) = []"
proof -
  let ?r = "stream_loop task_id (now w) 300 False 0 w"
  from stream_loop_idle [OF assms(2,4,1,3), of "now w" 300 False 0 L] obtain d where
    l: "fst ?r = [(Timeout, timeout_response)]" "snd ?r = advance d w"
       "300 * 1000 \<le> int (now (snd ?r)) - int (now w)"
       "(\<forall>t. latency w t \<le> L) \<and> int (now w) - int (now w) < 300 * 1000 + 50 + 3 * int L
          \<longrightarrow> int (now (snd ?r)) - int (now w) < 300 * 1000 + 50 + 4 * int L"
    by blast
  have "deleted (snd ?r) = deleted w" by (simp add: l(2))
  moreover have "str_store (snd ?r) (result_key task_id) = None"
    using assms by (simp add: l(2) str_store_advance_quiet)
  moreover have "list_store (snd ?r) (stream_key task_id) = []"
    using assms by (simp add: l(2) list_store_advance_quiet)
  moreover have "int (now (snd ?r)) - int (now w) < 300050 + 4 * int L"
    if "\<forall>t. latency w t \<le> L"
    using l(4) that by simp
  moreover have "\<exists>d. snd ?r = advance d w" using l(2) by blast
  ultimately show ?thesis using l(1,3) by (simp add: stream_completion_response_def)
qed

theorem relay_timeout_leaves_broker_witness:
  "str_store idle_world (result_key ''timeoutjob'') = None
   \<and> list_store idle_world (stream_key ''timeoutjob'') = []
   \<and> no_result ''timeoutjob'' idle_world \<and> no_chunks ''timeoutjob'' idle_world
   \<and> fst (stream_completion_response ''timeoutjob'' idle_world) = [(Timeout, timeout_response)]
   \<and> 300000 \<le> int (now (snd (stream_completion_response ''timeoutjob'' idle_world)))
   \<and> int (now (snd (stream_completion_response ''timeoutjob'' idle_world))) < 300050
   \<and> deleted (snd (stream_completion_response ''timeoutjob'' idle_world)) = []"
proof -
  have h: "str_store idle_world (result_key ''timeoutjob'') = None"
    "list_store idle_world (stream_key ''timeoutjob'') = []"
    "no_result ''timeoutjob'' idle_world" "no_chunks ''timeoutjob'' idle_world"
    by (simp_all add: idle_world_def no_result_def no_chunks_def)
  have z: "\<forall>t. latency idle_world t \<le> 0" "now idle_world = 0" "deleted idle_world = []"
    by (simp_all add: idle_world_def)
  show ?thesis
    using h z relay_timeout_leaves_broker [OF h, of 0] by simp
qed



text \<open>
  Claim C5. In any pass of the relay loop (the timeout not yet reached): if
  \<^verbatim>\<open>chunks_sent\<close> is true once the pass has emitted its new chunks, and the result key then
  read holds a decodable object with no (true) \<^verbatim>\<open>error\<close> and a \<^verbatim>\<open>data\<close> object whose
  \<^verbatim>\<open>stop\<close> is false or absent, the relay yields nothing after the chunk frames of this
  pass, deletes the result key and the chunk list, and returns: no further poll, no pause.
\<close>

theorem relay_silent_without_stop:
  assumes "int (now w) - int start_time < timeout * 1000"
    and "chunks_sent_after task_id chunks_sent seen w"
    and "result_read task_id chunks_sent seen w = Some (Json_text (JObj result))"
    and "\<not> flag_set result ''error''"
    and "map_of result ''data'' = Some (JObj data)"
    and "\<not> flag_set data ''stop''"
  shows "stream_loop task_id start_time timeout chunks_sent seen w
           = (polled_frames task_id chunks_sent seen w,
              redis_delete (stream_key task_id)
                (redis_delete (result_key task_id) (after_get task_id chunks_sent seen w)))
       \<and> (\<exists>cs. polled_frames task_id chunks_sent seen w = chunk_frames cs)
       \<and> deleted (snd (stream_loop task_id start_time timeout chunks_sent seen w))
           = deleted w @ [result_key task_id, stream_key task_id]"
proof -
  let ?w' = "redis_delete (stream_key task_id)
                (redis_delete (result_key task_id) (after_get task_id chunks_sent seen w))"
  have "stream_iteration task_id chunks_sent seen w
          = (polled_frames task_id chunks_sent seen w, Inr ?w')"
    unfolding stream_iteration_parts
    using assms(2,3) final_frames_silent [OF assms(4,5,6)]
    by (simp add: nonempty_def json_loads_def)
  then have "stream_loop task_id start_time timeout chunks_sent seen w
          = (polled_frames task_id chunks_sent seen w, ?w')"
    using assms(1) by (intro stream_loop_return)
  moreover have "deleted ?w' = deleted w @ [result_key task_id, stream_key task_id]"
    by (simp add: deleted_after_get)
  ultimately show ?thesis using polled_frames_chunks [of task_id chunks_sent seen w] by simp
qed

theorem relay_silent_without_stop_witness:
  "int (now (settled_world ''abc123'' [Json_text hel]
          (JObj [(''data'', JObj [(''stop'', JBool False)])]))) - int 0 < 300 * 1000
   \<and> chunks_sent_after ''abc123'' False 0 (settled_world ''abc123'' [Json_text hel]
          (JObj [(''data'', JObj [(''stop'', JBool False)])]))
   \<and> result_read ''abc123'' False 0 (settled_world ''abc123'' [Json_text hel]
          (JObj [(''data'', JObj [(''stop'', JBool False)])]))
        = Some (Json_text (JObj [(''data'', JObj [(''stop'', JBool False)])]))
   \<and> \<not> flag_set [(''data'', JObj [(''stop'', JBool False)])] ''error''
   \<and> map_of [(''data'', JObj [(''stop'', JBool False)])] ''data''
        = Some (JObj [(''stop'', JBool False)])
   \<and> \<not> flag_set [(''stop'', JBool False)] ''stop''
   \<and> fst (stream_loop ''abc123'' 0 300 False 0 (settled_world ''abc123'' [Json_text hel]
          (JObj [(''data'', JObj [(''stop'', JBool False)])]))) = [(Chunk, hel)]
   \<and> deleted (snd (stream_loop ''abc123'' 0 300 False 0 (settled_world ''abc123'' [Json_text hel]
          (JObj [(''data'', JObj [(''stop'', JBool False)])]))))
        = [result_key ''abc123'', stream_key ''abc123'']"
proof -
  let ?res = "[(''data'', JObj [(''stop'', JBool False)])]"
  let ?w = "settled_world ''abc123'' [Json_text hel] (JObj ?res)"
  have h1: "int (now ?w) - int 0 < 300 * 1000" by (simp add: settled_world_def)
  have h2: "chunks_sent_after ''abc123'' False 0 ?w" by code_simp
  have h3: "result_read ''abc123'' False 0 ?w = Some (Json_text (JObj ?res))" by code_simp
  have h4: "\<not> flag_set ?res ''error''" by (simp add: flag_set_def)
  have h5: "map_of ?res ''data'' = Some (JObj [(''stop'', JBool False)])" by simp
  have h6: "\<not> flag_set [(''stop'', JBool False)] ''stop''"
    by (simp add: flag_set_def py_truthy_def)
  have p: "polled_frames ''abc123'' False 0 ?w = [(Chunk, hel)]" by code_simp
  have z: "deleted ?w = []" by (simp add: settled_world_def)
  show ?thesis
    using h1 h2 h3 h4 h5 h6 p z relay_silent_without_stop [OF h1 h2 h3 h4 h5 h6]
    by (simp add: deleted_after_get)
qed

text \<open>
  Claim C7, as the code has it. In any pass of the relay loop (the timeout not yet
  reached): if \<^verbatim>\<open>chunks_sent\<close> is true once the pass has emitted its new chunks, and the
  result key then read holds a decodable object with no (true) \<^verbatim>\<open>error\<close> and a \<^verbatim>\<open>data\<close>
  object whose \<^verbatim>\<open>stop\<close> is true, the relay ends its output with a synthetic frame of
  exactly four members: \<^verbatim>\<open>content\<close> the empty string, \<^verbatim>\<open>multimodal\<close> copied from the data
  (\<^verbatim>\<open>false\<close> when absent), \<^verbatim>\<open>slot_id\<close> copied from the data (\<^verbatim>\<open>0\<close> when absent) and
  \<^verbatim>\<open>stop\<close> true. No other member of the data is passed on.
\<close>

theorem relay_final_stop_frame:
  assumes "int (now w) - int start_time < timeout * 1000"
    and "chunks_sent_after task_id chunks_sent seen w"
    and "result_read task_id chunks_sent seen w = Some (Json_text (JObj result))"
    and "\<not> flag_set result ''error''"
    and "map_of result ''data'' = Some (JObj data)"
    and "flag_set data ''stop''"
  shows "fst (stream_loop task_id start_time timeout chunks_sent seen w)
           = polled_frames task_id chunks_sent seen w @
             [(Final_stop,
               JObj [(''content'', JStr []),
                     (''multimodal'',
                        case map_of data ''multimodal'' of None \<Rightarrow> JBool False | Some v \<Rightarrow> v),
                     (''slot_id'', case map_of data ''slot_id'' of None \<Rightarrow> JInt 0 | Some v \<Rightarrow> v),
                     (''stop'', JBool True)])]
       \<and> (\<exists>cs. polled_frames task_id chunks_sent seen w = chunk_frames cs)
       \<and> deleted (snd (stream_loop task_id start_time timeout chunks_sent seen w))
           = deleted w @ [result_key task_id, stream_key task_id]"
proof -
  let ?f = "(Final_stop,
               JObj [(''content'', JStr []),
                     (''multimodal'',
                        case map_of data ''multimodal'' of None \<Rightarrow> JBool False | Some v \<Rightarrow> v),
                     (''slot_id'', case map_of data ''slot_id'' of None \<Rightarrow> JInt 0 | Some v \<Rightarrow> v),
                     (''stop'', JBool True)])"
  let ?w' = "redis_delete (stream_key task_id)
                (redis_delete (result_key task_id) (yield (after_get task_id chunks_sent seen w)))"
  have "stream_iteration task_id chunks_sent seen w
          = (polled_frames task_id chunks_sent seen w @ [?f], Inr ?w')"
    unfolding stream_iteration_parts
    using assms(2,3) final_frames_stop [OF assms(4,5,6)]
    by (simp add: nonempty_def json_loads_def)
  then have "stream_loop task_id start_time timeout chunks_sent seen w
          = (polled_frames task_id chunks_sent seen w @ [?f], ?w')"
    using assms(1) by (intro stream_loop_return)
  moreover have "deleted ?w' = deleted w @ [result_key task_id, stream_key task_id]"
    by (simp add: deleted_after_get yield_def)
  ultimately show ?thesis using polled_frames_chunks [of task_id chunks_sent seen w] by simp
qed

theorem relay_final_stop_frame_witness:
  "int (now (settled_world ''abc123'' [Json_text hel, Json_text lo]
          (JObj [(''data'', JObj [(''stop'', JBool True), (''slot_id'', JInt 2)])]))) - int 0
      < 300 * 1000
   \<and> chunks_sent_after ''abc123'' False 0 (settled_world ''abc123'' [Json_text hel, Json_text lo]
          (JObj [(''data'', JObj [(''stop'', JBool True), (''slot_id'', JInt 2)])]))
   \<and> result_read ''abc123'' False 0 (settled_world ''abc123'' [Json_text hel, Json_text lo]
          (JObj [(''data'', JObj [(''stop'', JBool True), (''slot_id'', JInt 2)])]))
        = Some (Json_text (JObj [(''data'', JObj [(''stop'', JBool True), (''slot_id'', JInt 2)])]))
   \<and> \<not> flag_set [(''data'', JObj [(''stop'', JBool True), (''slot_id'', JInt 2)])] ''error''
   \<and> map_of [(''data'', JObj [(''stop'', JBool True), (''slot_id'', JInt 2)])] ''data''
        = Some (JObj [(''stop'', JBool True), (''slot_id'', JInt 2)])
   \<and> flag_set [(''stop'', JBool True), (''slot_id'', JInt 2)] ''stop''
   \<and> fst (stream_loop ''abc123'' 0 300 False 0 (settled_world ''abc123'' [Json_text hel, Json_text lo]
          (JObj [(''data'', JObj [(''stop'', JBool True), (''slot_id'', JInt 2)])])))
        = [(Chunk, hel), (Chunk, lo),
           (Final_stop, JObj [(''content'', JStr []), (''multimodal'', JBool False),
                              (''slot_id'', JInt 2), (''stop'', JBool True)])]"
proof -
  let ?data = "[(''stop'', JBool True), (''slot_id'', JInt 2)]"
  let ?res = "[(''data'', JObj ?data)]"
  let ?w = "settled_world ''abc123'' [Json_text hel, Json_text lo] (JObj ?res)"
  have h1: "int (now ?w) - int 0 < 300 * 1000" by (simp add: settled_world_def)
  have h2: "chunks_sent_after ''abc123'' False 0 ?w" by code_simp
  have h3: "result_read ''abc123'' False 0 ?w = Some (Json_text (JObj ?res))" by code_simp
  have h4: "\<not> flag_set ?res ''error''" by (simp add: flag_set_def)
  have h5: "map_of ?res ''data'' = Some (JObj ?data)" by simp
  have h6: "flag_set ?data ''stop''" by (simp add: flag_set_def py_truthy_def)
  have p: "polled_frames ''abc123'' False 0 ?w = [(Chunk, hel), (Chunk, lo)]" by code_simp
  show ?thesis
    using h1 h2 h3 h4 h5 h6 p relay_final_stop_frame [OF h1 h2 h3 h4 h5 h6] by simp
qed

text \<open>
  Claim C7 as stated fails on the scenario of the spec: for the chunks \<^verbatim>\<open>Hel\<close>, \<^verbatim>\<open>lo\<close> and the
  result data \<^verbatim>\<open>{stop: true, slot_id: 2}\<close> the last frame is not
  \<^verbatim>\<open>{content: "", slot_id: 2, stop: true}\<close>; it has a fourth member, \<^verbatim>\<open>multimodal: false\<close>.
\<close>

theorem relay_final_stop_frame_counterexample:
  "fst (stream_completion_response ''abc123''
     (settled_world ''abc123'' [Json_text hel, Json_text lo]
        (JObj [(''data'', JObj [(''stop'', JBool True), (''slot_id'', JInt 2)])])))
   = [(Chunk, hel), (Chunk, lo),
      (Final_stop, JObj [(''content'', JStr []), (''multimodal'', JBool False),
                         (''slot_id'', JInt 2), (''stop'', JBool True)])]
   \<and> snd (last (fst (stream_completion_response ''abc123''
     (settled_world ''abc123'' [Json_text hel, Json_text lo]
        (JObj [(''data'', JObj [(''stop'', JBool True), (''slot_id'', JInt 2)])])))))
     \<noteq> JObj [(''content'', JStr []), (''slot_id'', JInt 2), (''stop'', JBool True)]"
  by code_simp

text \<open>A world like \<open>settled_world\<close> whose result key holds any string.\<close>

definition stored_world :: "string \<Rightarrow> broker_string list \<Rightarrow> broker_string \<Rightarrow> world" where
  "stored_world task_id chunks result_data =
     \<lparr>now = 0, latency = (\<lambda>t. 0), worker = (\<lambda>t. []),
      str_store = (\<lambda>k. None)(result_key task_id := Some result_data),
      list_store = (\<lambda>k. [])(stream_key task_id := chunks),
      deleted = []\<rparr>"

text \<open>The job \<^verbatim>\<open>abc123\<close> of the spec with a worker that is still at work when the relay
  starts: the chunk \<^verbatim>\<open>Hel\<close> is in the list; one millisecond later the worker appends
  \<^verbatim>\<open>lo\<close> and writes the result.\<close>

definition racing_world :: world where
  "racing_world =
     \<lparr>now = 0, latency = (\<lambda>t. 0),
      worker = (\<lambda>t. if t = 1 then
                  [Append_chunk ''abc123'' (Json_text lo),
                   Write_result ''abc123''
                     (Json_text (JObj [(''data'', JObj [(''stop'', JBool True), (''slot_id'', JInt 2)])]))]
                else []),
      str_store = (\<lambda>k. None),
      list_store = (\<lambda>k. [])(stream_key ''abc123'' := [Json_text hel]),
      deleted = []\<rparr>"




text \<open>
  Claim C1 fails on the code when the worker is still appending while the relay runs.
  In \<open>racing_world\<close> the worker appends the two chunks \<^verbatim>\<open>Hel\<close>, \<^verbatim>\<open>lo\<close> and then writes the
  result with \<^verbatim>\<open>stop: true\<close>, so the claim asks for three frames. The relay reads the list
  when it holds \<^verbatim>\<open>Hel\<close> only, pauses one millisecond after yielding it (line 259), then
  finds the result, yields the final frame and deletes the list: \<^verbatim>\<open>lo\<close> is never sent.
\<close>

theorem relay_race_loses_chunk:
  "fst (stream_completion_response ''abc123'' racing_world)
     = [(Chunk, hel),
        (Final_stop, JObj [(''content'', JStr []), (''multimodal'', JBool False),
                           (''slot_id'', JInt 2), (''stop'', JBool True)])]
   \<and> history ''abc123'' racing_world 1 = [Json_text hel, Json_text lo]
   \<and> fst (stream_completion_response ''abc123'' racing_world)
       \<noteq> [(Chunk, hel), (Chunk, lo),
          (Final_stop, JObj [(''content'', JStr []), (''multimodal'', JBool False),
                             (''slot_id'', JInt 2), (''stop'', JBool True)])]
   \<and> deleted (snd (stream_completion_response ''abc123'' racing_world))
       = [''result:abc123'', ''stream:abc123'']
   \<and> now (snd (stream_completion_response ''abc123'' racing_world)) = 1"
  by code_simp

section \<open>The non-streaming endpoints\<close>

text \<open>
  \<^verbatim>\<open>tokenize\<close> (lines 176 to 209) and \<^verbatim>\<open>completion\<close> (lines 320 to 362), from the point
  where the job has been pushed on the queue under \<open>task_id\<close>. Inside the \<^verbatim>\<open>try\<close> block the
  code raises either one of the exceptions above or an \<^verbatim>\<open>HTTPException\<close>; the handler
  \<^verbatim>\<open>except Exception as e\<close> catches both, since \<^verbatim>\<open>HTTPException\<close> derives from
  \<^verbatim>\<open>Exception\<close>, and raises a new \<^verbatim>\<open>HTTPException\<close> whose detail is built from
  \<^verbatim>\<open>str(e)\<close>. For an \<^verbatim>\<open>HTTPException\<close> that is Starlette's
  \<^verbatim>\<open>f"{self.status_code}: {self.detail}"\<close>; \<open>py_str\<close> stands for Python's \<^verbatim>\<open>str\<close> on a detail
  that is not a string.
\<close>

datatype raised = Py exc | HTTPException nat json

datatype http_response = Body json | Error_response nat json | Streaming "frame list"

fun decimal :: "nat \<Rightarrow> string" where
  "decimal n = (if n < 10 then [char_of (48 + n)]
                else decimal (n div 10) @ [char_of (48 + n mod 10)])"

declare decimal.simps [simp del]

definition str_raised :: "(json \<Rightarrow> string) \<Rightarrow> raised \<Rightarrow> string" where
  "str_raised py_str x = (case x of
      Py e \<Rightarrow> str_exc e
    | HTTPException status_code detail \<Rightarrow>
        decimal status_code @ '': '' @ (case detail of JStr s \<Rightarrow> s | _ \<Rightarrow> py_str detail))"

definition tokenize :: "(json \<Rightarrow> string) \<Rightarrow> string \<Rightarrow> world \<Rightarrow> http_response \<times> world" where
  "tokenize py_str task_id w =
     (let (r, w') = wait_for_result task_id 30 w;
          outcome =
            (case r of
               Inl e \<Rightarrow> Inl (Py e)
             | Inr result \<Rightarrow>
                 (case dict_get result ''error'' JNull of
                    Inl e \<Rightarrow> Inl (Py e)
                  | Inr err \<Rightarrow>
                      if py_truthy err then Inl (HTTPException 500 err)
                      else (case dict_get result ''data'' (JObj []) of
                              Inl e \<Rightarrow> Inl (Py e)
                            | Inr d \<Rightarrow> Inr d)))
      in (case outcome of
            Inl x \<Rightarrow> Error_response 500
                       (JStr (''Error processing tokenize request: '' @ str_raised py_str x))
          | Inr d \<Rightarrow> Body d,
          w'))"

definition completion ::
  "(json \<Rightarrow> string) \<Rightarrow> bool \<Rightarrow> string \<Rightarrow> world \<Rightarrow> http_response \<times> world" where
  "completion py_str stream task_id w =
     (if stream then
        (let (fs, w') = stream_completion_response task_id w in (Streaming fs, w'))
      else
        (let (r, w') = wait_for_result task_id 300 w;
             outcome =
               (case r of
                  Inl e \<Rightarrow> Inl (Py e)
                | Inr result \<Rightarrow>
                    (case dict_get result ''error'' JNull of
                       Inl e \<Rightarrow> Inl (Py e)
                     | Inr err \<Rightarrow>
                         if py_truthy err then Inl (HTTPException 500 err)
                         else (case dict_index result ''data'' of
                                 Inl e \<Rightarrow> Inl (Py e)
                               | Inr d \<Rightarrow> Inr d)))
         in (case outcome of
               Inl x \<Rightarrow> Error_response 500 (JStr (str_raised py_str x))
             | Inr d \<Rightarrow> Body d,
             w')))"

lemma decimal_500: "decimal 500 = ''500''"
  by code_simp

text \<open>
  Claim C9 fails on the code. For a job whose result is \<^verbatim>\<open>{"error": "boom"}\<close> both
  endpoints raise \<^verbatim>\<open>HTTPException(status_code=500, detail="boom")\<close> inside their own
  \<^verbatim>\<open>try\<close> block; the handler of that block catches it and answers with a detail that is not
  the worker's string: \<^verbatim>\<open>tokenize\<close> with \<^verbatim>\<open>Error processing tokenize request: 500: boom\<close>,
  \<^verbatim>\<open>completion\<close> with \<^verbatim>\<open>500: boom\<close>.
\<close>

theorem endpoints_wrap_worker_error:
  "\<forall>py_str.
     fst (tokenize py_str ''t1'' (settled_world ''t1'' [] (JObj [(''error'', JStr ''boom'')])))
       = Error_response 500 (JStr ''Error processing tokenize request: 500: boom'')
   \<and> fst (completion py_str False ''t1'' (settled_world ''t1'' [] (JObj [(''error'', JStr ''boom'')])))
       = Error_response 500 (JStr ''500: boom'')
   \<and> Error_response 500 (JStr ''Error processing tokenize request: 500: boom'')
       \<noteq> Error_response 500 (JStr ''boom'')
   \<and> Error_response 500 (JStr ''500: boom'') \<noteq> Error_response 500 (JStr ''boom'')"
proof -
  let ?w = "settled_world ''t1'' [] (JObj [(''error'', JStr ''boom'')])"
  have a: "fst (wait_for_result ''t1'' 30 ?w) = Inr (JObj [(''error'', JStr ''boom'')])"
    by code_simp
  have b: "fst (wait_for_result ''t1'' 300 ?w) = Inr (JObj [(''error'', JStr ''boom'')])"
    by code_simp
  show ?thesis
    by (simp add: tokenize_def completion_def case_prod_beta Let_def a b dict_get_def
          py_truthy_def str_raised_def decimal_500)
qed

section \<open>A result that arrives while the waiter polls\<close>

text \<open>Every write of the job's result key after \<open>now\<close> writes the string \<open>r\<close>.\<close>

definition only_result :: "string \<Rightarrow> broker_string \<Rightarrow> world \<Rightarrow> bool" where
  "only_result task_id r w =
     (\<forall>t>now w. \<forall>p. Write_result task_id p \<in> set (worker w t) \<longrightarrow> p = r)"

lemma str_store_advance_only:
  assumes "only_result task_id r w"
  shows "str_store (advance d w) (result_key task_id)
           = (if (\<exists>t. now w < t \<and> t \<le> now w + d \<and> Write_result task_id r \<in> set (worker w t))
              then Some r else str_store w (result_key task_id))"
proof -
  let ?ops = "ops_between (worker w) (now w) (now w + d)"
  have "p = r" if "Write_result task_id p \<in> set ?ops" for p
    using that assms by (auto simp: only_result_def set_ops_between)
  from fold_worker_step_str [of task_id ?ops r, OF this]
  have "str_store (fold worker_step ?ops (w\<lparr>now := now w + d\<rparr>)) (result_key task_id)
          = (if Write_result task_id r \<in> set ?ops then Some r
             else str_store w (result_key task_id))"
    by simp
  moreover have "Write_result task_id r \<in> set ?ops
      \<longleftrightarrow> (\<exists>t. now w < t \<and> t \<le> now w + d \<and> Write_result task_id r \<in> set (worker w t))"
    by (auto simp: set_ops_between)
  ultimately show ?thesis by (simp add: advance_def)
qed

lemma only_result_advance:
  assumes "only_result task_id r w"
  shows "only_result task_id r (advance d w)"
  unfolding only_result_def
proof (intro allI impI)
  fix t p
  assume "now (advance d w) < t" and "Write_result task_id p \<in> set (worker (advance d w) t)"
  then have "now w < t" and "Write_result task_id p \<in> set (worker w t)" by simp_all
  then show "p = r" using assms by (simp add: only_result_def)
qed

lemma wait_loop_finds:
  assumes "only_result task_id (Json_text r) w" and "\<forall>t. latency w t \<le> L"
    and "int (now w) - int start_time < timeout * 1000"
    and "str_store w (result_key task_id) = Some (Json_text r)
         \<or> (str_store w (result_key task_id) = None \<and> now w < t_r
             \<and> Write_result task_id (Json_text r) \<in> set (worker w t_r)
             \<and> int t_r + 100 + int L \<le> int start_time + timeout * 1000)"
  shows "fst (wait_loop task_id start_time timeout w) = Inr r
       \<and> str_store (snd (wait_loop task_id start_time timeout w)) (result_key task_id) = None
       \<and> deleted (snd (wait_loop task_id start_time timeout w)) = deleted w @ [result_key task_id]"
  using assms
proof (induction task_id start_time timeout w rule: wait_loop.induct)
  case (1 task_id start_time timeout w)
  define w1 where "w1 = await 0 w"
  define w2 where "w2 = asyncio_sleep 100 w1"
  have w1: "w1 = advance (latency w (now w)) w" by (simp add: w1_def await_def)
  have w2: "w2 = advance (100 + latency w1 (now w1)) w1"
    by (simp add: w2_def asyncio_sleep_advance)
  have o1: "only_result task_id (Json_text r) w1"
    unfolding w1 using "1.prems"(1) by (rule only_result_advance)
  have s1: "str_store w1 (result_key task_id)
      = (if (\<exists>t. now w < t \<and> t \<le> now w1 \<and> Write_result task_id (Json_text r) \<in> set (worker w t))
         then Some (Json_text r) else str_store w (result_key task_id))"
    unfolding w1 using str_store_advance_only [OF "1.prems"(1)] by simp
  show ?case
  proof (cases "str_store w1 (result_key task_id)")
    case (Some s)
    then have "s = Json_text r" using s1 "1.prems"(4) by (auto split: if_splits)
    then have "wait_loop task_id start_time timeout w
                 = (Inr r, redis_delete (result_key task_id) w1)"
      using Some "1.prems"(3) unfolding w1_def by (intro wait_loop_found) simp_all
    then show ?thesis by (simp add: w1_def)
  next
    case None
    then have pend: "str_store w (result_key task_id) = None" "now w < t_r"
      "Write_result task_id (Json_text r) \<in> set (worker w t_r)"
      "int t_r + 100 + int L \<le> int start_time + timeout * 1000"
      and late: "now w1 < t_r"
      using s1 "1.prems"(4) by (auto split: if_splits simp: not_le)
    have step: "wait_loop task_id start_time timeout w = wait_loop task_id start_time timeout w2"
      unfolding w2_def w1_def using "1.prems"(3) None [unfolded w1_def] by (rule wait_loop_step)
    have lat: "latency w1 (now w1) \<le> L" using "1.prems"(2) by (simp add: w1)
    have c2: "int (now w2) - int start_time < timeout * 1000"
      using late lat pend(4) by (simp add: w2)
    have o2: "only_result task_id (Json_text r) w2"
      unfolding w2 using o1 by (rule only_result_advance)
    have l2: "\<forall>t. latency w2 t \<le> L" using "1.prems"(2) by (simp add: w2 w1)
    have s2: "str_store w2 (result_key task_id)
      = (if (\<exists>t. now w1 < t \<and> t \<le> now w2 \<and> Write_result task_id (Json_text r) \<in> set (worker w t))
         then Some (Json_text r) else None)"
    proof -
      have "now w2 = now w1 + (100 + latency w1 (now w1))" "worker w1 = worker w"
        by (simp_all add: w2 w1)
      then show ?thesis
        unfolding w2 using str_store_advance_only [OF o1, of "100 + latency w1 (now w1)"] None
        by auto
    qed
    have p2: "str_store w2 (result_key task_id) = Some (Json_text r)
         \<or> (str_store w2 (result_key task_id) = None \<and> now w2 < t_r
             \<and> Write_result task_id (Json_text r) \<in> set (worker w2 t_r)
             \<and> int t_r + 100 + int L \<le> int start_time + timeout * 1000)"
    proof (cases "now w2 < t_r")
      case True
      then show ?thesis using s2 pend late
        by (cases "str_store w2 (result_key task_id)") (auto simp: w2 w1 split: if_splits)
    next
      case False
      then have "\<exists>t. now w1 < t \<and> t \<le> now w2 \<and> Write_result task_id (Json_text r) \<in> set (worker w t)"
        using late pend(3) by (auto intro: exI [of _ t_r])
      then show ?thesis using s2 by simp
    qed
    have "fst (wait_loop task_id start_time timeout w2) = Inr r
       \<and> str_store (snd (wait_loop task_id start_time timeout w2)) (result_key task_id) = None
       \<and> deleted (snd (wait_loop task_id start_time timeout w2)) = deleted w2 @ [result_key task_id]"
      using "1.IH"(1) [of "redis_get (result_key task_id) w" None w1] "1.prems"(3) None o2 l2 c2 p2
      by (simp add: redis_get_def w1_def w2_def)
    then show ?thesis unfolding step by (simp add: w2 w1)
  qed
qed

definition late_world :: world where
  "late_world =
     \<lparr>now = 0, latency = (\<lambda>t. 0),
      worker = (\<lambda>t. if t = 950 then
                  [Write_result ''late'' (Json_text (JObj [(''data'', JObj [(''text'', JStr ''42'')])]))]
                else []),
      str_store = (\<lambda>k. None), list_store = (\<lambda>k. []), deleted = []\<rparr>"

definition timely_world :: world where
  "timely_world =
     \<lparr>now = 0, latency = (\<lambda>t. 0),
      worker = (\<lambda>t. if t = 900 then
                  [Write_result ''timely'' (Json_text (JObj [(''data'', JObj [(''text'', JStr ''42'')])]))]
                else []),
      str_store = (\<lambda>k. None), list_store = (\<lambda>k. []), deleted = []\<rparr>"



lemma str_store_advance_no_write:
  assumes "\<And>t p. now w < t \<Longrightarrow> t \<le> now w + d \<Longrightarrow> Write_result task_id p \<notin> set (worker w t)"
  shows "str_store (advance d w) (result_key task_id) = str_store w (result_key task_id)"
proof -
  have "Write_result task_id p \<notin> set (ops_between (worker w) (now w) (now w + d))" for p
    using assms by (auto simp: set_ops_between)
  then show ?thesis
    using fold_worker_step_str [of task_id "ops_between (worker w) (now w) (now w + d)" undefined]
    by (simp add: advance_def)
qed

text \<open>With a broker that answers at once, a result that is written after the last poll
  is not seen: the waiter times out.\<close>

lemma wait_loop_misses:
  assumes "\<forall>t. latency w t = 0" and "str_store w (result_key task_id) = None"
    and "\<And>t p. now w < t \<Longrightarrow> t \<le> now w + 100 * k \<Longrightarrow>
           Write_result task_id p \<notin> set (worker w t)"
    and "int (now w) + 100 * int k - int start_time < timeout * 1000"
    and "timeout * 1000 \<le> int (now w) + 100 * int k + 100 - int start_time"
  shows "wait_loop task_id start_time timeout w
           = (Inr timeout_response, advance (100 * k + 100) w)"
  using assms
proof (induction k arbitrary: w)
  case 0
  have a: "await 0 w = w" using "0.prems"(1) by (simp add: await_def)
  have s: "asyncio_sleep 100 w = advance 100 w"
    using "0.prems"(1) by (simp add: asyncio_sleep_advance)
  have "wait_loop task_id start_time timeout w
          = wait_loop task_id start_time timeout (advance 100 w)"
    using wait_loop_step [of w start_time timeout task_id] "0.prems"(2,4) by (simp add: a s)
  moreover have "\<not> int (now (advance 100 w)) - int start_time < timeout * 1000"
    using "0.prems"(5) by simp
  ultimately show ?case by (simp add: wait_loop_expired)
next
  case (Suc k)
  have a: "await 0 w = w" using Suc.prems(1) by (simp add: await_def)
  have s: "asyncio_sleep 100 w = advance 100 w"
    using Suc.prems(1) by (simp add: asyncio_sleep_advance)
  have step: "wait_loop task_id start_time timeout w
          = wait_loop task_id start_time timeout (advance 100 w)"
    using wait_loop_step [of w start_time timeout task_id] Suc.prems(2,4) by (simp add: a s)
  have n: "str_store (advance 100 w) (result_key task_id) = None"
    using str_store_advance_no_write [of w 100 task_id] Suc.prems(2,3) by simp
  have "wait_loop task_id start_time timeout (advance 100 w)
          = (Inr timeout_response, advance (100 * k + 100) (advance 100 w))"
  proof (rule Suc.IH)
    show "\<forall>t. latency (advance 100 w) t = 0" using Suc.prems(1) by simp
    show "str_store (advance 100 w) (result_key task_id) = None" by (rule n)
    show "Write_result task_id p \<notin> set (worker (advance 100 w) t)"
      if "now (advance 100 w) < t" "t \<le> now (advance 100 w) + 100 * k" for t p
      using Suc.prems(3) [of t p] that by simp
    show "int (now (advance 100 w)) + 100 * int k - int start_time < timeout * 1000"
      using Suc.prems(4) by simp
    show "timeout * 1000 \<le> int (now (advance 100 w)) + 100 * int k + 100 - int start_time"
      using Suc.prems(5) by simp
  qed
  then show ?case unfolding step by (simp add: advance_advance add.commute)
qed


end
